theory Spec2Isabelle
  imports Main "HOL-Library.Word"
begin

unbundle bit_operations_syntax

section \<open>JavaScript strings and built-ins\<close>

text \<open>
  A JavaScript string is a sequence of UTF-16 code units. The model uses \<open>string\<close>
  (\<open>char list\<close>); the 256 values of \<open>char\<close> stand for the code units 0..255 (the
  Latin-1 range), on which \<open>trim\<close> and \<open>toLowerCase\<close> are given exactly as ECMAScript
  defines them. BigInt values are \<open>int\<close>; array indices and lengths are \<open>nat\<close>; the
  elements of the byte arrays (\<open>number[]\<close>) are \<open>nat\<close>.
\<close>

definition code :: "char \<Rightarrow> nat" where
  "code c = of_char c"

definition in_range :: "char \<Rightarrow> char \<Rightarrow> char \<Rightarrow> bool" where
  "in_range lo hi c = (code lo \<le> code c \<and> code c \<le> code hi)"

text \<open>ECMAScript WhiteSpace and LineTerminator code units below 256: TAB, LF, VT, FF, CR,
  SP and NBSP. \<open>String.prototype.trim\<close> and the BigInt string grammar use the same set.\<close>

definition isWhiteSpace :: "char \<Rightarrow> bool" where
  "isWhiteSpace c = (code c = 9 \<or> code c = 10 \<or> code c = 11 \<or> code c = 12 \<or> code c = 13
     \<or> code c = 32 \<or> code c = 160)"

definition trimStart :: "string \<Rightarrow> string" where
  "trimStart s = dropWhile isWhiteSpace s"

definition trimEnd :: "string \<Rightarrow> string" where
  "trimEnd s = rev (dropWhile isWhiteSpace (rev s))"

definition trim :: "string \<Rightarrow> string" where
  "trim s = trimEnd (trimStart s)"

definition lowerChar :: "char \<Rightarrow> char" where
  "lowerChar c = (if in_range CHR ''A'' CHR ''Z'' c \<or> (192 \<le> code c \<and> code c \<le> 222 \<and> code c \<noteq> 215)
     then char_of (code c + 32) else c)"

definition toLowerCase :: "string \<Rightarrow> string" where
  "toLowerCase s = map lowerChar s"

text \<open>\<open>toUpperCase\<close> is only applied to the ASCII constants of the derivation engine; the
  model maps the ASCII letters and leaves every other character alone.\<close>

definition upperChar :: "char \<Rightarrow> char" where
  "upperChar c = (if in_range CHR ''a'' CHR ''z'' c then char_of (code c - 32) else c)"

definition toUpperCase :: "string \<Rightarrow> string" where
  "toUpperCase s = map upperChar s"

definition padStart :: "nat \<Rightarrow> char \<Rightarrow> string \<Rightarrow> string" where
  "padStart n c s = replicate (n - length s) c @ s"

definition substring :: "nat \<Rightarrow> nat \<Rightarrow> string \<Rightarrow> string" where
  "substring i j s = take (j - i) (drop i s)"

fun join :: "string \<Rightarrow> string list \<Rightarrow> string" where
  "join sep [] = []"
| "join sep [s] = s"
| "join sep (s # t # ss) = s @ sep @ join sep (t # ss)"

text \<open>\<open>indexOf\<close> on a string, for a one-character argument; \<open>None\<close> is the source's \<open>-1\<close>.\<close>

fun indexOf :: "string \<Rightarrow> char \<Rightarrow> nat option" where
  "indexOf [] c = None"
| "indexOf (d # ds) c = (if d = c then Some 0 else map_option Suc (indexOf ds c))"

subsection \<open>Hexadecimal digits\<close>

definition hexDigits :: string where
  "hexDigits = ''0123456789abcdef''"

definition isHexDigit :: "char \<Rightarrow> bool" where
  "isHexDigit c = (in_range CHR ''0'' CHR ''9'' c \<or> in_range CHR ''a'' CHR ''f'' c
     \<or> in_range CHR ''A'' CHR ''F'' c)"

definition hexDigitValue :: "char \<Rightarrow> nat" where
  "hexDigitValue c = (if in_range CHR ''0'' CHR ''9'' c then code c - 48
     else if in_range CHR ''a'' CHR ''f'' c then code c - 87
     else code c - 55)"

text \<open>The value of a string of hexadecimal digits, most significant first.\<close>

definition hexValue :: "string \<Rightarrow> nat" where
  "hexValue s = foldl (\<lambda>v c. v * 16 + hexDigitValue c) 0 s"

text \<open>\<open>Number.parseInt(s, 16)\<close>. The program applies it only to one or two hexadecimal
  digits (a piece of a \<open>toString(16)\<close> or of a digest printed in hex), where it yields their
  value; on a string with another character the source would continue with \<open>NaN\<close> or with the
  value of a prefix.\<close>

definition parseInt16 :: "string \<Rightarrow> nat" where
  "parseInt16 s = hexValue s"

text \<open>\<open>n.toString(16)\<close> for a BigInt or an integral number.\<close>

function natToString16 :: "nat \<Rightarrow> string" where
  "natToString16 n = (if n < 16 then [hexDigits ! n] else natToString16 (n div 16) @ [hexDigits ! (n mod 16)])"
  by pat_completeness auto
termination
  by (relation "measure id") auto

declare natToString16.simps [simp del]

definition toString16 :: "int \<Rightarrow> string" where
  "toString16 n = (if n < 0 then CHR ''-'' # natToString16 (nat (- n)) else natToString16 (nat n))"

subsection \<open>Exceptions\<close>

datatype js_error = Error string | SyntaxError string | RangeError string

fun message :: "js_error \<Rightarrow> string" where
  "message (Error m) = m"
| "message (SyntaxError m) = m"
| "message (RangeError m) = m"

text \<open>\<open>BigInt("0x" + s)\<close>. ECMAScript's StringToBigInt strips white space on both sides
  of the whole argument (which here starts with \<open>0\<close>), then wants \<open>0x\<close> and at least one
  hexadecimal digit, and nothing else; otherwise BigInt throws a SyntaxError. The text of the
  message is the engine's; nothing below depends on it.\<close>

definition BigInt_0x :: "string \<Rightarrow> js_error + int" where
  "BigInt_0x s = (let digits = trimEnd s in
     if digits \<noteq> [] \<and> list_all isHexDigit digits then Inr (int (hexValue digits))
     else Inl (SyntaxError (''Cannot convert 0x'' @ s @ '' to a BigInt'')))"

subsection \<open>Regular expressions\<close>

text \<open>The regular expressions of the program are all of the shape
  \<open>^C1{n1}C2{n2}...$\<close>: anchored on both sides, a sequence of character classes with exact
  repetition counts. Such an expression is a list of pairs of a class and a count.\<close>

type_synonym regex = "((char \<Rightarrow> bool) \<times> nat) list"

fun regex_test :: "regex \<Rightarrow> string \<Rightarrow> bool" where
  "regex_test [] s = (s = [])"
| "regex_test ((cls, n) # r) s =
     (n \<le> length s \<and> list_all cls (take n s) \<and> regex_test r (drop n s))"

text \<open>\<open>[1-9A-HJ-NP-Za-km-z]\<close>\<close>

definition base58Class :: "char \<Rightarrow> bool" where
  "base58Class c = (in_range CHR ''1'' CHR ''9'' c \<or> in_range CHR ''A'' CHR ''H'' c
     \<or> in_range CHR ''J'' CHR ''N'' c \<or> in_range CHR ''P'' CHR ''Z'' c
     \<or> in_range CHR ''a'' CHR ''k'' c \<or> in_range CHR ''m'' CHR ''z'' c)"

text \<open>\<open>[0-9a-fA-F]\<close>; also \<open>[0-9a-f]\<close> under the flag \<open>i\<close>, whose case folding maps no
  character outside ASCII to an ASCII letter.\<close>

definition hexClass :: "char \<Rightarrow> bool" where
  "hexClass c = isHexDigit c"

section \<open>The validator (src/lib/bitcoin-validator.ts)\<close>

definition GSMG_PUZZLE_ADDRESS :: string where
  "GSMG_PUZZLE_ADDRESS = ''1GSMG1JC9wtdSwfwApgj2xcmJPAwx7prBe''"

datatype key_format = WIF | WIF_compressed | Hex | Unknown

record KeyValidationResult =
  isValid :: bool
  format :: key_format
  address :: "string option"
  matchesPuzzle :: bool
  checksum :: bool
  error :: "string option"
  timestamp :: nat

definition BASE58_ALPHABET :: string where
  "BASE58_ALPHABET = ''123456789ABCDEFGHJKLMNPQRSTUVWXYZabcdefghijkmnopqrstuvwxyz''"

subsection \<open>secp256k1 arithmetic\<close>

definition P :: int where
  "P = 0xFFFFFFFFFFFFFFFFFFFFFFFFFFFFFFFFFFFFFFFFFFFFFFFFFFFFFFFEFFFFFC2F"

definition N :: int where
  "N = 0xFFFFFFFFFFFFFFFFFFFFFFFFFFFFFFFEBAAEDCE6AF48A03BBFD25E8CD0364141"

definition Gx :: int where
  "Gx = 0x79BE667EF9DCBBAC55A06295CE870B07029BFCDB2DCE28D959F2815B16F81798"

definition Gy :: int where
  "Gy = 0x483ADA7726A3C4655DA4FBFC0E1108A8FD17B448A68554199C47D08FFB10D4B8"

text \<open>BigInt \<open>/\<close> truncates towards zero and \<open>%\<close> takes the sign of the dividend. Both
  throw on a zero divisor; the program divides only by the constant \<open>P\<close> and, in
  \<open>modInverse\<close>, by a remainder the loop has just tested to be nonzero.\<close>

definition bigint_div :: "int \<Rightarrow> int \<Rightarrow> int" where
  "bigint_div a b = sgn a * sgn b * (\<bar>a\<bar> div \<bar>b\<bar>)"

definition bigint_rem :: "int \<Rightarrow> int \<Rightarrow> int" where
  "bigint_rem a b = sgn a * (\<bar>a\<bar> mod \<bar>b\<bar>)"

definition mod_js :: "int \<Rightarrow> int \<Rightarrow> int" where
  "mod_js a m = (let result = bigint_rem a m in if result \<ge> 0 then result else result + m)"

function modInverse_loop :: "int \<Rightarrow> int \<Rightarrow> int \<Rightarrow> int \<Rightarrow> int \<times> int" where
  "modInverse_loop old_r r old_s s =
     (if r \<noteq> 0 then
        (let quotient = bigint_div old_r r
         in modInverse_loop r (old_r - quotient * r) s (old_s - quotient * s))
      else (old_r, old_s))"
  by pat_completeness auto

lemma bigint_rem_eq: "a - bigint_div a b * b = bigint_rem a b"
proof -
  have "\<bar>a\<bar> = (\<bar>a\<bar> div \<bar>b\<bar>) * \<bar>b\<bar> + \<bar>a\<bar> mod \<bar>b\<bar>" by simp
  then have "sgn a * \<bar>a\<bar> = sgn a * ((\<bar>a\<bar> div \<bar>b\<bar>) * \<bar>b\<bar>) + sgn a * (\<bar>a\<bar> mod \<bar>b\<bar>)"
    by (metis distrib_left)
  moreover have "sgn a * \<bar>a\<bar> = a" by (simp add: mult_sgn_abs)
  moreover have "sgn a * ((\<bar>a\<bar> div \<bar>b\<bar>) * \<bar>b\<bar>) = (sgn a * sgn b * (\<bar>a\<bar> div \<bar>b\<bar>)) * b"
  proof -
    have "\<bar>b\<bar> = sgn b * b" by (simp add: abs_sgn mult.commute)
    then show ?thesis by (simp add: mult.assoc mult.left_commute)
  qed
  ultimately show ?thesis by (simp add: bigint_div_def bigint_rem_def)
qed

lemma abs_bigint_rem_less: "b \<noteq> 0 \<Longrightarrow> \<bar>bigint_rem a b\<bar> < \<bar>b\<bar>"
  by (simp add: bigint_rem_def abs_mult abs_sgn_eq)

termination modInverse_loop
proof (relation "measure (\<lambda>(old_r, r, old_s, s). nat \<bar>r\<bar>)")
  show "wf (measure (\<lambda>(old_r, r, old_s, s). nat \<bar>r\<bar>))" by simp
next
  fix old_r r old_s s :: int and q :: int
  assume "r \<noteq> 0" and "q = bigint_div old_r r"
  then have "\<bar>old_r - q * r\<bar> < \<bar>r\<bar>"
    using abs_bigint_rem_less [of r old_r] by (simp add: bigint_rem_eq)
  then show "((r, old_r - q * r, s, old_s - q * s), (old_r, r, old_s, s))
      \<in> measure (\<lambda>(old_r, r, old_s, s). nat \<bar>r\<bar>)"
    by simp
qed

declare modInverse_loop.simps [simp del]

definition modInverse :: "int \<Rightarrow> int \<Rightarrow> int" where
  "modInverse a m = (case modInverse_loop a m 1 0 of (old_r, old_s) \<Rightarrow> mod_js old_s m)"

text \<open>A point of the curve; \<open>None\<close> is the source's \<open>null\<close>, the point at infinity.\<close>

record point =
  x :: int
  y :: int

type_synonym Point = "point option"

fun pointAdd :: "Point \<Rightarrow> Point \<Rightarrow> Point" where
  "pointAdd None p2 = p2"
| "pointAdd p1 None = p1"
| "pointAdd (Some p1) (Some p2) =
     (if x p1 = x p2 then
        (if mod_js (y p1 + y p2) P = 0 then None
         else
           (let s = mod_js (3 * x p1 * x p1 * modInverse (2 * y p1) P) P;
                x3 = mod_js (s * s - 2 * x p1) P;
                y3 = mod_js (s * (x p1 - x3) - y p1) P
            in Some \<lparr>x = x3, y = y3\<rparr>))
      else
        (let s = mod_js ((y p2 - y p1) * modInverse (mod_js (x p2 - x p1) P) P) P;
             x3 = mod_js (s * s - x p1 - x p2) P;
             y3 = mod_js (s * (x p1 - x3) - y p1) P
         in Some \<lparr>x = x3, y = y3\<rparr>))"

text \<open>The loop of \<open>pointMultiply\<close>, on its three variables. For \<open>k > 0\<close> the test
  \<open>k & 1n\<close> is \<open>k mod 2 = 1\<close> and \<open>k >>= 1n\<close> is \<open>k div 2\<close>.\<close>

function pointMultiply_loop :: "int \<Rightarrow> Point \<Rightarrow> Point \<Rightarrow> Point" where
  "pointMultiply_loop k result addend =
     (if k > 0 then
        pointMultiply_loop (k div 2)
          (if k mod 2 = 1 then pointAdd result addend else result)
          (pointAdd addend addend)
      else result)"
  by pat_completeness auto
termination
  by (relation "measure (\<lambda>(k, result, addend). nat k)") auto

declare pointMultiply_loop.simps [simp del]

definition pointMultiply :: "int \<Rightarrow> Point \<Rightarrow> Point" where
  "pointMultiply k p = pointMultiply_loop k None p"

subsection \<open>Bytes and hexadecimal strings\<close>

fun hexToBytes :: "string \<Rightarrow> nat list" where
  "hexToBytes [] = []"
| "hexToBytes [c] = [parseInt16 [c]]"
| "hexToBytes (c # d # s) = parseInt16 [c, d] # hexToBytes s"

definition bytesToHex :: "nat list \<Rightarrow> string" where
  "bytesToHex bytes = concat (map (\<lambda>b. padStart 2 CHR ''0'' (natToString16 b)) bytes)"

definition bigintToHex32 :: "int \<Rightarrow> string" where
  "bigintToHex32 n = padStart 64 CHR ''0'' (toString16 n)"

subsection \<open>Base58\<close>

text \<open>The first loop of \<open>base58Decode\<close>: the value of the digits, or the error thrown at
  the first character outside the alphabet.\<close>

fun base58_value :: "int \<Rightarrow> string \<Rightarrow> js_error + int" where
  "base58_value v [] = Inr v"
| "base58_value v (c # cs) =
     (case indexOf BASE58_ALPHABET c of
        None \<Rightarrow> Inl (Error (''Invalid Base58 character: '' @ [c]))
      | Some index \<Rightarrow> base58_value (v * 58 + int index) cs)"

definition base58Decode :: "string \<Rightarrow> js_error + nat list" where
  "base58Decode str =
     (case base58_value 0 str of
        Inl e \<Rightarrow> Inl e
      | Inr v \<Rightarrow>
          (let hex0 = toString16 v;
               hex = (if length hex0 mod 2 \<noteq> 0 then CHR ''0'' # hex0 else hex0);
               zeros = replicate (length (takeWhile (\<lambda>c. c = CHR ''1'') str)) 0
           in Inr (zeros @ hexToBytes hex)))"

text \<open>The \<open>while\<close> loop of \<open>base58Encode\<close>, with the string built so far.\<close>

function base58_digits :: "int \<Rightarrow> string \<Rightarrow> string" where
  "base58_digits v result =
     (if v > 0 then
        (let remainder = nat (bigint_rem v 58)
         in base58_digits (bigint_div v 58) (BASE58_ALPHABET ! remainder # result))
      else result)"
  by pat_completeness auto
termination
proof (relation "measure (\<lambda>(v, result). nat v)")
  show "wf (measure (\<lambda>(v, result). nat v))" by simp
next
  fix v :: int and result :: string and r :: nat
  assume "0 < v"
  then have "bigint_div v 58 = v div 58"
    by (simp add: bigint_div_def)
  moreover have "v div 58 < v" using \<open>0 < v\<close> by simp
  ultimately show "((bigint_div v 58, BASE58_ALPHABET ! r # result), (v, result))
      \<in> measure (\<lambda>(v, result). nat v)"
    using \<open>0 < v\<close> by simp
qed

declare base58_digits.simps [simp del]

definition base58Encode :: "nat list \<Rightarrow> string" where
  "base58Encode bytes =
     (let v = foldl (\<lambda>v byte. v * 256 + int byte) 0 bytes;
          result = base58_digits v [];
          result = replicate (length (takeWhile (\<lambda>b. b = 0) bytes)) CHR ''1'' @ result
      in if result = [] then ''1'' else result)"

subsection \<open>The hash functions of the library\<close>

text \<open>
  SHA-256 and RIPEMD-160 come from the library crypto-js, which is no part of the
  repository. The functions below take the two digests as parameters \<open>sha256\<close> and
  \<open>ripemd160\<close>, from a sequence of bytes to a sequence of bytes. A library WordArray is the
  sequence of its bytes; \<open>CryptoJS.enc.Hex.parse\<close> reads two hexadecimal digits per byte and
  \<open>toString()\<close> of a WordArray prints two per byte.
\<close>

type_synonym digest = "nat list \<Rightarrow> nat list"

definition Hex_parse :: "string \<Rightarrow> nat list" where
  "Hex_parse s = hexToBytes s"

definition Hex_stringify :: "nat list \<Rightarrow> string" where
  "Hex_stringify bytes = concat (map (\<lambda>b. [hexDigits ! ((b div 16) mod 16), hexDigits ! (b mod 16)]) bytes)"

definition doubleSha256 :: "digest \<Rightarrow> string \<Rightarrow> string" where
  "doubleSha256 sha256 data =
     (let first = sha256 (Hex_parse data);
          second = sha256 first
      in Hex_stringify second)"

definition hash160 :: "digest \<Rightarrow> digest \<Rightarrow> string \<Rightarrow> string" where
  "hash160 sha256 ripemd160 data =
     (let sha = sha256 (Hex_parse data);
          ripemd = ripemd160 sha
      in Hex_stringify ripemd)"

subsection \<open>WIF parsing and address derivation\<close>

record wif_result =
  valid :: bool
  privateKeyHex :: string
  compressed :: bool

text \<open>\<open>decoded.slice(-4)\<close> and \<open>decoded.slice(0, -4)\<close>, on an array of any length.\<close>

definition slice_last4 :: "'a list \<Rightarrow> 'a list" where
  "slice_last4 xs = drop (length xs - 4) xs"

definition slice_but_last4 :: "'a list \<Rightarrow> 'a list" where
  "slice_but_last4 xs = take (length xs - 4) xs"

text \<open>\<open>xs.slice(i, j)\<close> for \<open>0 \<le> i \<le> j\<close>.\<close>

definition slice :: "nat \<Rightarrow> nat \<Rightarrow> 'a list \<Rightarrow> 'a list" where
  "slice i j xs = take (j - i) (drop i xs)"

text \<open>The body of \<open>validateWIFChecksum\<close> is one \<open>try\<close> block whose \<open>catch\<close> returns the
  invalid result; the only exception inside it is the one of \<open>base58Decode\<close>.\<close>

definition validateWIFChecksum :: "digest \<Rightarrow> string \<Rightarrow> wif_result" where
  "validateWIFChecksum sha256 wif =
     (case base58Decode wif of
        Inl e \<Rightarrow> \<lparr>valid = False, privateKeyHex = [], compressed = False\<rparr>
      | Inr decoded \<Rightarrow>
          if length decoded < 37 then \<lparr>valid = False, privateKeyHex = [], compressed = False\<rparr>
          else
            (let checksum = slice_last4 decoded;
                 payload = slice_but_last4 decoded;
                 payloadHex = bytesToHex payload;
                 calculatedChecksum = substring 0 8 (doubleSha256 sha256 payloadHex);
                 providedChecksum = bytesToHex checksum
             in if calculatedChecksum \<noteq> providedChecksum
                then \<lparr>valid = False, privateKeyHex = [], compressed = False\<rparr>
                else
                  (let compressed = (length payload = 34 \<and> payload ! 33 = 1);
                       privateKeyBytes = slice 1 33 payload;
                       privateKeyHex = bytesToHex privateKeyBytes
                   in \<lparr>valid = True, privateKeyHex = privateKeyHex, compressed = compressed\<rparr>)))"

definition privateKeyToPublicKey :: "string \<Rightarrow> bool \<Rightarrow> js_error + string" where
  "privateKeyToPublicKey keyHex isCompressed =
     (case BigInt_0x keyHex of
        Inl e \<Rightarrow> Inl e
      | Inr privateKey \<Rightarrow>
          (case pointMultiply privateKey (Some \<lparr>x = Gx, y = Gy\<rparr>) of
             None \<Rightarrow> Inl (Error ''Invalid private key - results in point at infinity'')
           | Some publicPoint \<Rightarrow>
               (let xHex = bigintToHex32 (x publicPoint);
                    yHex = bigintToHex32 (y publicPoint)
                in if isCompressed
                   then Inr ((if bigint_rem (y publicPoint) 2 = 0 then ''02'' else ''03'') @ xHex)
                   else Inr (''04'' @ xHex @ yHex))))"

definition publicKeyToAddress :: "digest \<Rightarrow> digest \<Rightarrow> string \<Rightarrow> string" where
  "publicKeyToAddress sha256 ripemd160 publicKeyHex =
     (let pubKeyHash = hash160 sha256 ripemd160 publicKeyHex;
          versionedHash = ''00'' @ pubKeyHash;
          checksum = substring 0 8 (doubleSha256 sha256 versionedHash)
      in base58Encode (hexToBytes (versionedHash @ checksum)))"

subsection \<open>Format detection and validation\<close>

definition detectKeyFormat :: "string \<Rightarrow> key_format" where
  "detectKeyFormat key =
     (let trimmed = trim key in
      if regex_test [(\<lambda>c. c = CHR ''5'', 1),
                     (\<lambda>c. c = CHR ''H'' \<or> c = CHR ''J'' \<or> c = CHR ''K'', 1),
                     (base58Class, 49)] trimmed
      then WIF
      else if regex_test [(\<lambda>c. c = CHR ''K'' \<or> c = CHR ''L'', 1), (base58Class, 51)] trimmed
      then WIF_compressed
      else if regex_test [(hexClass, 64)] trimmed
      then Hex
      else Unknown)"

text \<open>The result of a failing path: everything but the format and the error is fixed.\<close>

definition invalid_result :: "key_format \<Rightarrow> string \<Rightarrow> nat \<Rightarrow> KeyValidationResult" where
  "invalid_result fmt err ts =
     \<lparr>isValid = False, format = fmt, address = None, matchesPuzzle = False,
      checksum = False, error = Some err, timestamp = ts\<rparr>"

text \<open>The statements of the \<open>try\<close> block of \<open>validatePrivateKey\<close>: \<open>Inl\<close> is an exception
  that reaches the \<open>catch\<close>, \<open>Inr\<close> a result returned from inside the block. \<open>now\<close> is the
  value of \<open>new Date()\<close>.\<close>

definition validate_try :: "digest \<Rightarrow> digest \<Rightarrow> nat \<Rightarrow> key_format \<Rightarrow> string
    \<Rightarrow> js_error + KeyValidationResult" where
  "validate_try sha256 ripemd160 now fmt key =
     (let derive = (\<lambda>keyHex isCompressed.
            case privateKeyToPublicKey keyHex isCompressed of
              Inl e \<Rightarrow> Inl e
            | Inr publicKey \<Rightarrow>
                (let address = publicKeyToAddress sha256 ripemd160 publicKey;
                     matchesPuzzle = (address = GSMG_PUZZLE_ADDRESS)
                 in Inr \<lparr>isValid = True, format = fmt, address = Some address,
                         matchesPuzzle = matchesPuzzle, checksum = True, error = None,
                         timestamp = now\<rparr>))
      in
      if fmt = Hex then
        (let privateKeyHex = toLowerCase key in
         case BigInt_0x privateKeyHex of
           Inl e \<Rightarrow> Inl e
         | Inr keyBigInt \<Rightarrow>
             if keyBigInt \<le> 0 \<or> keyBigInt \<ge> N
             then Inr (invalid_result fmt ''Private key out of valid range for secp256k1'' now)
             else derive privateKeyHex True)
      else
        (let wifResult = validateWIFChecksum sha256 key in
         if \<not> valid wifResult
         then Inr (invalid_result fmt ''Invalid WIF checksum - key may be corrupted or mistyped'' now)
         else derive (privateKeyHex wifResult) (compressed wifResult)))"

definition validatePrivateKey :: "digest \<Rightarrow> digest \<Rightarrow> nat \<Rightarrow> string \<Rightarrow> KeyValidationResult" where
  "validatePrivateKey sha256 ripemd160 now key =
     (let fmt = detectKeyFormat key in
      if fmt = Unknown
      then invalid_result Unknown
             ''Unrecognized key format. Expected WIF (starts with 5, K, or L) or 64-char hex.'' now
      else
        (case validate_try sha256 ripemd160 now fmt key of
           Inr result \<Rightarrow> result
         | Inl e \<Rightarrow> invalid_result fmt (''Validation error: '' @ message e) now))"

section \<open>The derivation engine (src/lib/key-derivation-engine.ts)\<close>

text \<open>
  The field \<open>timestamp\<close> of a result is \<open>producedAt\<close> here (the validator's result has a
  field of the same name), its field \<open>method\<close> is \<open>methodLabel\<close> (the word is a keyword of
  Isabelle), and the counter \<open>this.iteration\<close> of the engine is \<open>iter\<close> (a
  result has a field \<open>iteration\<close>).
\<close>

record DerivationResult =
  key :: string
  methodLabel :: string
  inputs :: "string list"
  iteration :: nat
  producedAt :: nat

record DerivationProgress =
  totalAttempts :: nat
  currentAttempt :: nat
  currentMethod :: string
  keysGenerated :: "string list"
  matchFound :: bool

definition ABBA_TOKENS :: "string list" where
  "ABBA_TOKENS = [''matrixsumlist'', ''enter'', ''lastwordsbeforearchichoice'', ''thispassword'',
     ''yourlastcommand'', ''secondanswer'']"

definition PUZZLE_PASSWORDS :: "string list" where
  "PUZZLE_PASSWORDS = [''theseedisplanted'',
     ''theflowerblossomsthroughwhatseemstobeaconcretesurface'',
     ''causality'',
     ''jacquefrescogiveitjustonesecondheisenbergsuncertaintyprinciple'',
     ''THEMATRIXHASYOU'',
     ''choiceisanillusioncreatedbetweenthosewithpowerandthosewithout'']"

definition KNOWN_HASHES :: "string list" where
  "KNOWN_HASHES = [''eb3efb5151e6255994711fe8f2264427ceeebf88109e1d7fad5b0a8b6d07e5bf'',
     ''1a57c572caf3cf722e41f5f9cf99ffacff06728a43032dd44c481c77d2ec30d5'',
     ''250f37726d6862939f723edc4f993fde9d33c6004aab4f2203d9ee489d61ce4c'',
     ''89727c598b9cd1cf8873f27cb7057f050645ddb6a7a157a110239ac0152f6a32'']"

definition BEAUFORT_KEY :: string where
  "BEAUFORT_KEY = ''THEMATRIXHASYOU''"

subsection \<open>Helpers\<close>

text \<open>The library hashes a string through its UTF-8 bytes: one byte for a code unit below
  128, two for the others of the Latin-1 range.\<close>

definition Utf8_parse :: "string \<Rightarrow> nat list" where
  "Utf8_parse s = concat (map (\<lambda>c. if code c < 128 then [code c]
       else [192 + code c div 64, 128 + code c mod 64]) s)"

text \<open>\<open>sha256\<close> and \<open>doubleSha256\<close> of this file, on a string (the validator's
  \<open>doubleSha256\<close> reads its argument as hexadecimal digits instead).\<close>

definition sha256_text :: "digest \<Rightarrow> string \<Rightarrow> string" where
  "sha256_text sha256 input = Hex_stringify (sha256 (Utf8_parse input))"

definition doubleSha256_text :: "digest \<Rightarrow> string \<Rightarrow> string" where
  "doubleSha256_text sha256 input =
     (let first = sha256 (Utf8_parse input) in Hex_stringify (sha256 first))"

text \<open>The loop of \<open>xorHex\<close> takes two characters of each padded string at a time, as
  \<open>hexToBytes\<close> does.\<close>

definition xorHex :: "string \<Rightarrow> string \<Rightarrow> string" where
  "xorHex hex1 hex2 =
     (let len = max (length hex1) (length hex2);
          padded1 = padStart len CHR ''0'' hex1;
          padded2 = padStart len CHR ''0'' hex2
      in concat (map (\<lambda>(b1, b2). padStart 2 CHR ''0'' (natToString16 (b1 XOR b2)))
           (zip (hexToBytes padded1) (hexToBytes padded2))))"

text \<open>\<open>CryptoJS.PBKDF2\<close> with SHA-256 as hasher and a key of 256 bits is a parameter
  \<open>pbkdf2\<close>, from password, salt and iteration count to the bytes of the key.\<close>

type_synonym kdf = "string \<Rightarrow> string \<Rightarrow> nat \<Rightarrow> nat list"

definition pbkdf2Derive :: "kdf \<Rightarrow> string \<Rightarrow> string \<Rightarrow> nat \<Rightarrow> string" where
  "pbkdf2Derive pbkdf2 password salt iterations = Hex_stringify (pbkdf2 password salt iterations)"

text \<open>\<open>indexOf\<close> as the integer of the source, \<open>-1\<close> when the character is absent.\<close>

definition indexOf_int :: "string \<Rightarrow> char \<Rightarrow> int" where
  "indexOf_int s c = (case indexOf s c of None \<Rightarrow> - 1 | Some i \<Rightarrow> int i)"

text \<open>The loop of \<open>beaufortTransform\<close> over the upper-cased text, with \<open>keyIndex\<close>. An empty
  key gives \<open>undefined\<close> as key character, whose \<open>indexOf\<close> is \<open>-1\<close>.\<close>

fun beaufort_loop :: "string \<Rightarrow> string \<Rightarrow> nat \<Rightarrow> string" where
  "beaufort_loop [] upperKey keyIndex = []"
| "beaufort_loop (c # cs) upperKey keyIndex =
     (let alphabet = ''ABCDEFGHIJKLMNOPQRSTUVWXYZ'' in
      if c \<in> set alphabet then
        (let textIndex = indexOf_int alphabet c;
             keyCharIndex = (if upperKey = [] then - 1
                else indexOf_int alphabet (upperKey ! (keyIndex mod length upperKey)));
             resultIndex = bigint_rem (keyCharIndex - textIndex + 26) 26
         in alphabet ! nat resultIndex # beaufort_loop cs upperKey (keyIndex + 1))
      else c # beaufort_loop cs upperKey keyIndex)"

definition beaufortTransform :: "string \<Rightarrow> string \<Rightarrow> string" where
  "beaufortTransform text0 key0 = beaufort_loop (toUpperCase text0) (toUpperCase key0) 0"

text \<open>\<open>permutations\<close>: every call copies its input array, so the swaps of a recursive call
  are not seen by its caller. \<open>permutations_sized arr sz\<close> is the call whose \<open>size\<close> is \<open>sz\<close>,
  \<open>permutations_loop arr sz i\<close> the rest of its \<open>for\<close> loop from index \<open>i\<close> on.\<close>

definition swap :: "nat \<Rightarrow> nat \<Rightarrow> 'a list \<Rightarrow> 'a list" where
  "swap i j arr = (arr[i := arr ! j])[j := arr ! i]"

function permutations_sized :: "'a list \<Rightarrow> nat \<Rightarrow> 'a list list"
  and permutations_loop :: "'a list \<Rightarrow> nat \<Rightarrow> nat \<Rightarrow> 'a list list" where
  "permutations_sized arr sz = (if sz = 1 then [arr] else permutations_loop arr sz 0)"
| "permutations_loop arr sz i =
     (if i < sz then
        permutations_sized arr (sz - 1)
        @ permutations_loop (if sz mod 2 = 0 then swap i (sz - 1) arr else swap 0 (sz - 1) arr)
            sz (i + 1)
      else [])"
  by pat_completeness auto
termination
  by (relation "inv_image (less_than <*lex*> less_than)
        (\<lambda>a. case a of Inl (arr, sz) \<Rightarrow> (sz, sz + 1) | Inr (arr, sz, i) \<Rightarrow> (sz, sz - i))")
     auto

declare permutations_sized.simps [simp del]

declare permutations_loop.simps [simp del]

definition permutations :: "'a list \<Rightarrow> 'a list list" where
  "permutations inputArr = permutations_sized inputArr (length inputArr)"

fun combinations :: "'a list \<Rightarrow> nat \<Rightarrow> 'a list list" where
  "combinations arr k =
     (if k = 0 then [[]]
      else if length arr < k then []
      else (case arr of
              [] \<Rightarrow> []
            | first # rest \<Rightarrow>
                map (\<lambda>combo. first # combo) (combinations rest (k - 1)) @ combinations rest k))"

declare combinations.simps [simp del]

text \<open>The decimal digits of a number, for the template strings.\<close>

function Number_toString :: "nat \<Rightarrow> string" where
  "Number_toString n = (if n < 10 then [''0123456789'' ! n]
     else Number_toString (n div 10) @ [''0123456789'' ! (n mod 10)])"
  by pat_completeness auto
termination
  by (relation "measure id") auto

declare Number_toString.simps [simp del]

subsection \<open>The engine and its generators\<close>

text \<open>
  The state of a \<open>KeyDerivationEngine\<close>. The progress callback is code of the caller: the
  model keeps whether one was given (\<open>onProgress\<close>) and the arguments it was called with
  (\<open>notified\<close>). \<open>clock n\<close> is the value of \<open>new Date()\<close> when the \<open>n\<close>-th result is made.
\<close>

record Engine =
  results :: "DerivationResult list"
  iter :: nat
  onProgress :: bool
  notified :: "DerivationProgress list"
  shouldStop :: bool

definition new_engine :: "bool \<Rightarrow> Engine" where
  "new_engine callback =
     \<lparr>results = [], iter = 0, onProgress = callback, notified = [], shouldStop = False\<rparr>"

definition stop :: "Engine \<Rightarrow> Engine" where
  "stop eng = eng\<lparr>shouldStop := True\<rparr>"

definition addResult :: "(nat \<Rightarrow> nat) \<Rightarrow> Engine \<Rightarrow> string \<Rightarrow> string \<Rightarrow> string list
    \<Rightarrow> DerivationResult option \<times> Engine" where
  "addResult clock eng candidate label sources =
     (if \<not> regex_test [(hexClass, 64)] candidate then (None, eng)
      else
        (let n = iter eng + 1;
             result = \<lparr>key = toLowerCase candidate, methodLabel = label, inputs = sources,
                       iteration = n, producedAt = clock n\<rparr>;
             all = results eng @ [result];
             progress = \<lparr>totalAttempts = n, currentAttempt = n, currentMethod = label,
                         keysGenerated = map key all, matchFound = False\<rparr>
         in (Some result,
             eng\<lparr>iter := n, results := all,
                 notified := (if onProgress eng then notified eng @ [progress] else notified eng)\<rparr>)))"

text \<open>
  The body of a strategy is a sequence of two kinds of steps, in the order in which its
  loops run them: \<open>CheckStop\<close> is \<open>if (this.shouldStop) return\<close>, and \<open>Try key method inputs\<close>
  is \<open>const result = this.addResult(key, method, inputs); if (result) yield result\<close>. The
  loops run over fixed data and the hashes are pure, so the body of a generator is the list
  of its steps, and a suspended generator is the list of the steps still to run.
\<close>

datatype step = CheckStop | Try string string "string list"

fun is_Try :: "step \<Rightarrow> bool" where
  "is_Try CheckStop = False"
| "is_Try (Try c l s) = True"

text \<open>\<open>resume\<close> is one call of \<open>next()\<close>: it runs steps until a result is yielded or the
  generator returns (then no step is left).\<close>

fun resume :: "(nat \<Rightarrow> nat) \<Rightarrow> Engine \<Rightarrow> step list
    \<Rightarrow> DerivationResult option \<times> Engine \<times> step list" where
  "resume clock eng [] = (None, eng, [])"
| "resume clock eng (CheckStop # steps) =
     (if shouldStop eng then (None, eng, []) else resume clock eng steps)"
| "resume clock eng (Try candidate label sources # steps) =
     (case addResult clock eng candidate label sources of
        (Some result, eng') \<Rightarrow> (Some result, eng', steps)
      | (None, eng') \<Rightarrow> resume clock eng' steps)"

lemma resume_length:
  "resume clock eng steps = (Some r, eng', steps') \<Longrightarrow> length steps' < length steps"
  by (induction clock eng steps rule: resume.induct) (auto split: if_splits prod.splits option.splits)

text \<open>Running a generator to its end (\<open>for (const result of gen)\<close> with nothing else in the
  loop): the results it yields, and the engine afterwards.\<close>

function drain :: "(nat \<Rightarrow> nat) \<Rightarrow> Engine \<Rightarrow> step list \<Rightarrow> DerivationResult list \<times> Engine" where
  "drain clock eng steps =
     (case resume clock eng steps of
        (None, eng', steps') \<Rightarrow> ([], eng')
      | (Some r, eng', steps') \<Rightarrow>
          (case drain clock eng' steps' of (rs, eng'') \<Rightarrow> (r # rs, eng'')))"
  by pat_completeness auto
termination
  by (relation "measure (\<lambda>(clock, eng, steps). length steps)")
     (auto dest: resume_length [OF sym])

declare drain.simps [simp del]

subsection \<open>The strategies\<close>

definition generateABBAPermutations :: "digest \<Rightarrow> step list" where
  "generateABBAPermutations sha256 =
     concat (map (\<lambda>size.
       concat (map (\<lambda>combo.
         CheckStop # concat (map (\<lambda>perm.
           [CheckStop,
            Try (sha256_text sha256 (join [] perm))
              (''ABBA-Permutation-SHA256('' @ Number_toString size @ '')'') perm,
            Try (sha256_text sha256 (join ''_'' perm))
              (''ABBA-Permutation-SHA256-Underscore('' @ Number_toString size @ '')'') perm,
            Try (doubleSha256_text sha256 (join [] perm))
              (''ABBA-Permutation-DoubleSHA256('' @ Number_toString size @ '')'') perm])
           (permutations combo)))
         (combinations ABBA_TOKENS size)))
       [2..<Suc (min (length ABBA_TOKENS) 7)])"

text \<open>\<open>let xorResult = perm[0]; for (i = 1; ...) xorResult = xorHex(xorResult, perm[i])\<close>. The
  arrays are never empty; an empty one would give \<open>undefined\<close>, which the shape check of
  \<open>addResult\<close> rejects as it rejects the empty string.\<close>

definition xor_chain :: "string list \<Rightarrow> string" where
  "xor_chain perm = (case perm of [] \<Rightarrow> [] | first # rest \<Rightarrow> foldl xorHex first rest)"

definition generateXORChains :: "digest \<Rightarrow> step list" where
  "generateXORChains sha256 =
     concat (map (\<lambda>perm.
       [CheckStop,
        Try (xor_chain perm) ''XOR-Chain-KnownHashes'' perm,
        Try (sha256_text sha256 (xor_chain perm)) ''XOR-Chain-KnownHashes-SHA256'' perm])
       (permutations KNOWN_HASHES))
     @ concat (map (\<lambda>size.
         concat (map (\<lambda>combo.
           [CheckStop,
            Try (xor_chain combo) (''XOR-Combo('' @ Number_toString size @ '')'') combo])
           (combinations KNOWN_HASHES size)))
         [2..<4])"

definition generateBeaufortDerivations :: "digest \<Rightarrow> step list" where
  "generateBeaufortDerivations sha256 =
     concat (map (\<lambda>password.
       [CheckStop,
        Try (sha256_text sha256 (beaufortTransform password BEAUFORT_KEY))
          ''Beaufort-Transform-SHA256'' [password, BEAUFORT_KEY],
        Try (xorHex (sha256_text sha256 password) (sha256_text sha256 BEAUFORT_KEY))
          ''Password-XOR-BeaufortKey'' [password, BEAUFORT_KEY],
        Try (sha256_text sha256 (password @ BEAUFORT_KEY))
          ''Password+BeaufortKey-SHA256'' [password, BEAUFORT_KEY]])
       PUZZLE_PASSWORDS)
     @ concat (map (\<lambda>token.
         [CheckStop,
          Try (sha256_text sha256 (beaufortTransform token BEAUFORT_KEY))
            ''ABBA-Beaufort-SHA256'' [token, BEAUFORT_KEY]])
         ABBA_TOKENS)"

definition salts :: "string list" where
  "salts = [''gsmg.io'', ''1GSMG1JC9wtdSwfwApgj2xcmJPAwx7prBe'', ''5BTCPUZZLE'',
     ''THEMATRIXHASYOU'', ''theseedisplanted'']"

definition generatePBKDF2Derivations :: "kdf \<Rightarrow> step list" where
  "generatePBKDF2Derivations pbkdf2 =
     concat (map (\<lambda>password.
       concat (map (\<lambda>salt.
         [CheckStop,
          Try (pbkdf2Derive pbkdf2 password salt 2048) ''PBKDF2-2048'' [password, salt],
          Try (pbkdf2Derive pbkdf2 password salt 1) ''PBKDF2-1'' [password, salt]])
         salts))
       PUZZLE_PASSWORDS)
     @ concat (map (\<lambda>token.
         concat (map (\<lambda>salt.
           [CheckStop,
            Try (pbkdf2Derive pbkdf2 token salt 2048) ''PBKDF2-ABBA'' [token, salt]])
           (take 2 salts)))
         ABBA_TOKENS)"

definition wordSets :: "string list list" where
  "wordSets = [[''seed'', ''plant'', ''choice'', ''matrix'', ''illusion'', ''causality''],
     [''flower'', ''blossom'', ''concrete'', ''surface'', ''power'', ''logic''],
     [''matrix'', ''neo'', ''morpheus'', ''oracle'', ''trinity'', ''zion''],
     [''seed'', ''matrix'', ''choice'', ''power'', ''truth'', ''key''],
     [''causality'', ''choice'', ''illusion'', ''power'', ''machine'', ''truth'']]"

definition keyWords :: "string list" where
  "keyWords = [''seed'', ''matrix'', ''causality'', ''choice'', ''key'', ''bitcoin'']"

definition generateBIP39Style :: "digest \<Rightarrow> kdf \<Rightarrow> step list" where
  "generateBIP39Style sha256 pbkdf2 =
     concat (map (\<lambda>words.
       [CheckStop,
        Try (pbkdf2Derive pbkdf2 (join '' '' words) ''mnemonic'' 2048) ''BIP39-Style-Mnemonic'' words,
        Try (sha256_text sha256 (join '' '' words)) ''BIP39-Direct-SHA256'' words])
       wordSets)
     @ concat (map (\<lambda>perm.
         [CheckStop,
          Try (sha256_text sha256 (join '' '' perm)) ''BIP39-KeyWord-Permutation'' perm])
         (permutations keyWords))"

definition claimedPassword :: string where
  "claimedPassword = ''TheSeedIsPlantedChoiceIsAnIllusionMatrixSumListLastWordsBeforeArchiChoiceJacqueFractalThereIsNoSpoonFFGPFGGQG3GNpjk6''"

definition generatePhraseCombinatins :: "digest \<Rightarrow> step list" where
  "generatePhraseCombinatins sha256 =
     concat (map (\<lambda>pw.
       [CheckStop,
        Try (sha256_text sha256 pw) ''Direct-SHA256'' [pw],
        Try (doubleSha256_text sha256 pw) ''Direct-DoubleSHA256'' [pw]])
       PUZZLE_PASSWORDS)
     @ concat (map (\<lambda>size.
         concat (map (\<lambda>combo.
           [CheckStop,
            Try (sha256_text sha256 (join [] combo))
              (''Phrase-Combo-SHA256('' @ Number_toString size @ '')'') combo])
           (combinations PUZZLE_PASSWORDS size)))
         [2..<5])
     @ [Try (sha256_text sha256 claimedPassword) ''Claimed-Solution-SHA256'' [claimedPassword],
        Try (doubleSha256_text sha256 claimedPassword) ''Claimed-Solution-DoubleSHA256''
          [claimedPassword]]"

definition matrixPhrases :: "string list" where
  "matrixPhrases = [''ThereIsNoSpoon'', ''WakeUpNeo'', ''FollowTheWhiteRabbit'', ''TheMatrixHasYou'',
     ''FreeYourMind'', ''IKnowKungFu'', ''RedPillBluePill'', ''TheOne'', ''TheOracle'',
     ''TheArchitect'', ''Zion'', ''Nebuchadnezzar'']"

definition generateMatrixDerivations :: "digest \<Rightarrow> step list" where
  "generateMatrixDerivations sha256 =
     concat (map (\<lambda>phrase.
       [CheckStop,
        Try (sha256_text sha256 phrase) ''Matrix-Reference-SHA256'' [phrase],
        Try (sha256_text sha256 (phrase @ BEAUFORT_KEY)) ''Matrix+Beaufort-SHA256''
          [phrase, BEAUFORT_KEY]])
       matrixPhrases)
     @ concat (map (\<lambda>phrase.
         concat (map (\<lambda>pw.
           [CheckStop,
            Try (sha256_text sha256 (phrase @ pw)) ''Matrix+Password-SHA256'' [phrase, pw]])
           (take 3 PUZZLE_PASSWORDS)))
         matrixPhrases)"

datatype strategy = PhraseCombinatins | ABBAPermutations | XORChains | BeaufortDerivations
  | PBKDF2Derivations | BIP39Style | MatrixDerivations

fun generator :: "digest \<Rightarrow> kdf \<Rightarrow> strategy \<Rightarrow> step list" where
  "generator sha256 pbkdf2 PhraseCombinatins = generatePhraseCombinatins sha256"
| "generator sha256 pbkdf2 ABBAPermutations = generateABBAPermutations sha256"
| "generator sha256 pbkdf2 XORChains = generateXORChains sha256"
| "generator sha256 pbkdf2 BeaufortDerivations = generateBeaufortDerivations sha256"
| "generator sha256 pbkdf2 PBKDF2Derivations = generatePBKDF2Derivations pbkdf2"
| "generator sha256 pbkdf2 BIP39Style = generateBIP39Style sha256 pbkdf2"
| "generator sha256 pbkdf2 MatrixDerivations = generateMatrixDerivations sha256"

text \<open>\<open>runAllDerivations\<close> creates the seven generators, then runs them one after the other;
  after each result of the inner generator it tests the stop flag and returns, or yields the
  result. (The pause after each result, \<open>await new Promise(...)\<close>, changes no state of the
  engine.) \<open>runAll_resume\<close> is one call of \<open>next()\<close> on it, on the generators still to run.\<close>

definition runAll_generators :: "digest \<Rightarrow> kdf \<Rightarrow> step list list" where
  "runAll_generators sha256 pbkdf2 = map (generator sha256 pbkdf2)
     [PhraseCombinatins, ABBAPermutations, XORChains, BeaufortDerivations, PBKDF2Derivations,
      BIP39Style, MatrixDerivations]"

fun runAll_resume :: "(nat \<Rightarrow> nat) \<Rightarrow> Engine \<Rightarrow> step list list
    \<Rightarrow> DerivationResult option \<times> Engine \<times> step list list" where
  "runAll_resume clock eng [] = (None, eng, [])"
| "runAll_resume clock eng (gen # gens) =
     (case resume clock eng gen of
        (None, eng', gen') \<Rightarrow> runAll_resume clock eng' gens
      | (Some result, eng', gen') \<Rightarrow>
          if shouldStop eng' then (None, eng', []) else (Some result, eng', gen' # gens))"

lemma runAll_resume_length:
  "runAll_resume clock eng gens = (Some r, eng', gens') \<Longrightarrow>
   length (concat gens') + length gens' < length (concat gens) + length gens"
proof (induction gens arbitrary: eng)
  case Nil
  then show ?case by simp
next
  case (Cons gen gens)
  obtain res e g where fields: "resume clock eng gen = (res, e, g)"
    by (cases "resume clock eng gen") auto
  show ?case
  proof (cases res)
    case None
    then have "runAll_resume clock e gens = (Some r, eng', gens')"
      using Cons.prems fields by simp
    then have "length (concat gens') + length gens' < length (concat gens) + length gens"
      by (rule Cons.IH)
    then show ?thesis by simp
  next
    case (Some a)
    then have "length g < length gen" using fields resume_length by blast
    then show ?thesis using Cons.prems fields Some by (auto split: if_splits)
  qed
qed

function runAll_drain :: "(nat \<Rightarrow> nat) \<Rightarrow> Engine \<Rightarrow> step list list
    \<Rightarrow> DerivationResult list \<times> Engine" where
  "runAll_drain clock eng gens =
     (case runAll_resume clock eng gens of
        (None, eng', gens') \<Rightarrow> ([], eng')
      | (Some r, eng', gens') \<Rightarrow>
          (case runAll_drain clock eng' gens' of (rs, eng'') \<Rightarrow> (r # rs, eng'')))"
  by pat_completeness auto
termination
  by (relation "measure (\<lambda>(clock, eng, gens). length (concat gens) + length gens)")
     (auto dest: runAll_resume_length [OF sym])

declare runAll_drain.simps [simp del]

text \<open>A caller that runs strategies one after the other on one engine, each to its end.\<close>

fun run_strategies :: "digest \<Rightarrow> kdf \<Rightarrow> (nat \<Rightarrow> nat) \<Rightarrow> Engine \<Rightarrow> strategy list
    \<Rightarrow> DerivationResult list \<times> Engine" where
  "run_strategies sha256 pbkdf2 clock eng [] = ([], eng)"
| "run_strategies sha256 pbkdf2 clock eng (s # ss) =
     (case drain clock eng (generator sha256 pbkdf2 s) of
        (rs, eng') \<Rightarrow>
          (case run_strategies sha256 pbkdf2 clock eng' ss of (rs', eng'') \<Rightarrow> (rs @ rs', eng'')))"

section \<open>Auxiliary notions for the proofs\<close>

text \<open>The hexadecimal digits that \<open>base58Decode\<close> cuts into bytes: \<open>toString(16)\<close> of the
  value, with a \<open>0\<close> in front when their number is odd.\<close>

definition evenHex :: "nat \<Rightarrow> string" where
  "evenHex v = (let hex0 = natToString16 v in if length hex0 mod 2 \<noteq> 0 then CHR ''0'' # hex0 else hex0)"

text \<open>A sequence of bytes that the hexadecimal digits of its value give back.\<close>

definition bytes_ok :: "nat list \<Rightarrow> bool" where
  "bytes_ok bs = (1 \<le> foldl (\<lambda>v byte. v * 256 + byte) 0 bs
     \<and> even (length (evenHex (foldl (\<lambda>v byte. v * 256 + byte) 0 bs)))
     \<and> hexToBytes (evenHex (foldl (\<lambda>v byte. v * 256 + byte) 0 bs)) = bs)"

text \<open>The shape check of \<open>addResult\<close>: \<open>/^[0-9a-f]{64}$/i\<close>.\<close>

definition valid64 :: "string \<Rightarrow> bool" where
  "valid64 s = regex_test [(hexClass, 64)] s"

text \<open>The candidate keys that the steps of a generator pass to \<open>addResult\<close>, in order.\<close>

fun candidates :: "step list \<Rightarrow> string list" where
  "candidates [] = []"
| "candidates (CheckStop # steps) = candidates steps"
| "candidates (Try c l s # steps) = c # candidates steps"

text \<open>\<open>tries_ok k steps\<close>: after \<open>k\<close> steps \<open>Try\<close> in a row, the steps never have more than
  three \<open>Try\<close> in a row. \<open>checked\<close>: the steps begin with the test of the stop flag, or
  there is none.\<close>

fun tries_ok :: "nat \<Rightarrow> step list \<Rightarrow> bool" where
  "tries_ok k [] = True"
| "tries_ok k (CheckStop # steps) = tries_ok 0 steps"
| "tries_ok k (Try c l s # steps) = (k < 3 \<and> tries_ok (Suc k) steps)"

definition checked :: "step list \<Rightarrow> bool" where
  "checked steps = (case steps of [] \<Rightarrow> True | st # rest \<Rightarrow> st = CheckStop)"

definition good :: "step list \<Rightarrow> bool" where
  "good steps = (checked steps \<and> tries_ok 0 steps)"

text \<open>The generator is resumed once, then \<open>stop()\<close> is called, then the generator is run to
  its end: the results it yields after the call of \<open>stop()\<close>.\<close>

definition results_after_stop :: "(nat \<Rightarrow> nat) \<Rightarrow> Engine \<Rightarrow> step list \<Rightarrow> DerivationResult list" where
  "results_after_stop clock eng gen =
     (case resume clock eng gen of (r, eng', gen') \<Rightarrow> fst (drain clock (stop eng') gen'))"

text \<open>The digests are parameters; a closed instance needs functions in their place. These
  stand-ins return 32 zero bytes on every input (a SHA-256 digest and the derived key have
  32 bytes).\<close>

definition zero_digest :: digest where
  "zero_digest bytes = replicate 32 0"

definition zero_kdf :: kdf where
  "zero_kdf password salt iterations = replicate 32 0"

section \<open>Format detection\<close>

lemma char_eq_code: "(c = d) = (code c = code d)"
  by (auto simp: code_def)

lemma range_cases: "(a \<le> (n::nat) \<and> n \<le> b) = (n \<in> set [a..<Suc b])"
  by auto

lemma base58Class_iff: "base58Class c = (c \<in> set BASE58_ALPHABET)"
  unfolding base58Class_def in_range_def BASE58_ALPHABET_def range_cases
  by (simp add: char_eq_code [of c] code_def upt_conv_Cons)

lemma hexClass_iff: "hexClass c = (c \<in> set ''0123456789abcdefABCDEF'')"
  unfolding hexClass_def isHexDigit_def in_range_def range_cases
  by (simp add: char_eq_code [of c] code_def upt_conv_Cons)

lemma regex_test_one:
  "regex_test ((cls, 1) # r) s = (\<exists>c cs. s = c # cs \<and> cls c \<and> regex_test r cs)"
  by (cases s) auto

lemma regex_test_last: "regex_test [(cls, n)] s = (length s = n \<and> list_all cls s)"
  by auto

lemma format_chain:
  "\<not> (A \<and> B) \<Longrightarrow> \<not> (A \<and> C) \<Longrightarrow> \<not> (B \<and> C) \<Longrightarrow>
   r = (if A then WIF else if B then WIF_compressed else if C then Hex else Unknown) \<Longrightarrow>
   (r = WIF \<longleftrightarrow> A) \<and> (r = WIF_compressed \<longleftrightarrow> B) \<and> (r = Hex \<longleftrightarrow> C)
   \<and> (r = Unknown \<longleftrightarrow> \<not> A \<and> \<not> B \<and> \<not> C)"
  by auto

lemma wif_shape:
  "regex_test [(\<lambda>c. c = CHR ''5'', 1),
               (\<lambda>c. c = CHR ''H'' \<or> c = CHR ''J'' \<or> c = CHR ''K'', 1),
               (base58Class, 49)] t
     = (\<exists>c rest. t = CHR ''5'' # c # rest \<and> (c = CHR ''H'' \<or> c = CHR ''J'' \<or> c = CHR ''K'')
         \<and> length rest = 49 \<and> set rest \<subseteq> set BASE58_ALPHABET)"
proof -
  have "regex_test [(\<lambda>c. c = CHR ''5'', 1),
               (\<lambda>c. c = CHR ''H'' \<or> c = CHR ''J'' \<or> c = CHR ''K'', 1),
               (base58Class, 49)] t
      = (\<exists>c cs. t = c # cs \<and> c = CHR ''5''
           \<and> (\<exists>d ds. cs = d # ds \<and> (d = CHR ''H'' \<or> d = CHR ''J'' \<or> d = CHR ''K'')
           \<and> length ds = 49 \<and> set ds \<subseteq> set BASE58_ALPHABET))"
    unfolding regex_test_one regex_test_last list_all_iff base58Class_iff subset_eq ..
  also have "\<dots> = (\<exists>c rest. t = CHR ''5'' # c # rest
         \<and> (c = CHR ''H'' \<or> c = CHR ''J'' \<or> c = CHR ''K'')
         \<and> length rest = 49 \<and> set rest \<subseteq> set BASE58_ALPHABET)"
    by (cases t) auto
  finally show ?thesis .
qed

lemma wifc_shape:
  "regex_test [(\<lambda>c. c = CHR ''K'' \<or> c = CHR ''L'', 1), (base58Class, 51)] t
     = (\<exists>c rest. t = c # rest \<and> (c = CHR ''K'' \<or> c = CHR ''L'')
         \<and> length rest = 51 \<and> set rest \<subseteq> set BASE58_ALPHABET)"
  unfolding regex_test_one regex_test_last list_all_iff base58Class_iff
  by blast

lemma hex_shape:
  "regex_test [(hexClass, 64)] t
     = (length t = 64 \<and> set t \<subseteq> set ''0123456789abcdefABCDEF'')"
  unfolding regex_test_last list_all_iff hexClass_iff
  by blast

lemma detectKeyFormat_chain:
  "detectKeyFormat input =
     (if (\<exists>c rest. trim input = CHR ''5'' # c # rest
           \<and> (c = CHR ''H'' \<or> c = CHR ''J'' \<or> c = CHR ''K'')
           \<and> length rest = 49 \<and> set rest \<subseteq> set BASE58_ALPHABET) then WIF
      else if (\<exists>c rest. trim input = c # rest \<and> (c = CHR ''K'' \<or> c = CHR ''L'')
           \<and> length rest = 51 \<and> set rest \<subseteq> set BASE58_ALPHABET) then WIF_compressed
      else if length (trim input) = 64 \<and> set (trim input) \<subseteq> set ''0123456789abcdefABCDEF'' then Hex
      else Unknown)"
  unfolding detectKeyFormat_def Let_def wif_shape wifc_shape hex_shape
  by (rule refl)

text \<open>
  Claim C5, as the code has it. \<open>detectKeyFormat\<close> classifies the trimmed input by three
  shapes that exclude one another: the character \<open>5\<close>, then one of \<open>H\<close>, \<open>J\<close>, \<open>K\<close>, then 49
  characters of the Base58 alphabet (51 characters) is WIF; \<open>K\<close> or \<open>L\<close> and then 51
  characters of the Base58 alphabet (52 characters) is WIF-compressed; exactly 64
  hexadecimal digits is hex; every other string is unknown.
\<close>

theorem detectKeyFormat_shapes:
  "(detectKeyFormat input = WIF \<longleftrightarrow>
      (\<exists>c rest. trim input = CHR ''5'' # c # rest
         \<and> (c = CHR ''H'' \<or> c = CHR ''J'' \<or> c = CHR ''K'')
         \<and> length rest = 49 \<and> set rest \<subseteq> set BASE58_ALPHABET))
   \<and> (detectKeyFormat input = WIF_compressed \<longleftrightarrow>
      (\<exists>c rest. trim input = c # rest \<and> (c = CHR ''K'' \<or> c = CHR ''L'')
         \<and> length rest = 51 \<and> set rest \<subseteq> set BASE58_ALPHABET))
   \<and> (detectKeyFormat input = Hex \<longleftrightarrow>
      (length (trim input) = 64 \<and> set (trim input) \<subseteq> set ''0123456789abcdefABCDEF''))
   \<and> (detectKeyFormat input = Unknown \<longleftrightarrow>
      \<not> (\<exists>c rest. trim input = CHR ''5'' # c # rest
         \<and> (c = CHR ''H'' \<or> c = CHR ''J'' \<or> c = CHR ''K'')
         \<and> length rest = 49 \<and> set rest \<subseteq> set BASE58_ALPHABET)
      \<and> \<not> (\<exists>c rest. trim input = c # rest \<and> (c = CHR ''K'' \<or> c = CHR ''L'')
         \<and> length rest = 51 \<and> set rest \<subseteq> set BASE58_ALPHABET)
      \<and> \<not> (length (trim input) = 64 \<and> set (trim input) \<subseteq> set ''0123456789abcdefABCDEF''))"
proof -
  define t where "t = trim input"
  define A where "A = (\<exists>c rest. t = CHR ''5'' # c # rest
         \<and> (c = CHR ''H'' \<or> c = CHR ''J'' \<or> c = CHR ''K'')
         \<and> length rest = 49 \<and> set rest \<subseteq> set BASE58_ALPHABET)"
  define B where "B = (\<exists>c rest. t = c # rest \<and> (c = CHR ''K'' \<or> c = CHR ''L'')
         \<and> length rest = 51 \<and> set rest \<subseteq> set BASE58_ALPHABET)"
  define C where "C = (length t = 64 \<and> set t \<subseteq> set ''0123456789abcdefABCDEF'')"
  have AB: "\<not> (A \<and> B)" unfolding A_def B_def by fastforce
  have AC: "\<not> (A \<and> C)" unfolding A_def C_def by fastforce
  have BC: "\<not> (B \<and> C)" unfolding B_def C_def by fastforce
  have d: "detectKeyFormat input
      = (if A then WIF else if B then WIF_compressed else if C then Hex else Unknown)"
    unfolding A_def B_def C_def t_def by (rule detectKeyFormat_chain)
  show ?thesis
    using format_chain [OF AB AC BC d]
    unfolding A_def B_def C_def t_def .
qed

theorem detectKeyFormat_shapes_witness:
  "detectKeyFormat '' 5HueCGU8rMjxEXxiPuD5BDku4MkFqeZyd4dZ1jvhTVqvbTLvyTJ '' = WIF"
proof -
  have t: "trim '' 5HueCGU8rMjxEXxiPuD5BDku4MkFqeZyd4dZ1jvhTVqvbTLvyTJ ''
      = ''5HueCGU8rMjxEXxiPuD5BDku4MkFqeZyd4dZ1jvhTVqvbTLvyTJ''"
    by (simp add: trim_def trimStart_def trimEnd_def isWhiteSpace_def code_def)
  have "\<exists>c rest. trim '' 5HueCGU8rMjxEXxiPuD5BDku4MkFqeZyd4dZ1jvhTVqvbTLvyTJ '' = CHR ''5'' # c # rest
         \<and> (c = CHR ''H'' \<or> c = CHR ''J'' \<or> c = CHR ''K'')
         \<and> length rest = 49 \<and> set rest \<subseteq> set BASE58_ALPHABET"
    unfolding t by (simp add: BASE58_ALPHABET_def)
  then show ?thesis
    using detectKeyFormat_shapes [of "'' 5HueCGU8rMjxEXxiPuD5BDku4MkFqeZyd4dZ1jvhTVqvbTLvyTJ ''"]
    by blast
qed

text \<open>
  The claim as the specification words it fails: a string of 51 characters of the Base58
  alphabet that starts with \<open>5\<close> is not WIF unless its second character is \<open>H\<close>, \<open>J\<close> or
  \<open>K\<close>.
\<close>

theorem detectKeyFormat_51_counterexample:
  "length ''511111111111111111111111111111111111111111111111111'' = 51
   \<and> hd ''511111111111111111111111111111111111111111111111111'' = CHR ''5''
   \<and> set ''511111111111111111111111111111111111111111111111111'' \<subseteq> set BASE58_ALPHABET
   \<and> detectKeyFormat ''511111111111111111111111111111111111111111111111111'' = Unknown"
  by (simp add: detectKeyFormat_def trim_def trimStart_def trimEnd_def isWhiteSpace_def code_def
        BASE58_ALPHABET_def hexClass_def isHexDigit_def in_range_def)

section \<open>Parsing a hexadecimal key\<close>

lemma hex_not_white: "isHexDigit c \<Longrightarrow> \<not> isWhiteSpace c"
  by (auto simp: isHexDigit_def isWhiteSpace_def in_range_def code_def)

lemma isHexDigit_iff: "isHexDigit c = (c \<in> set ''0123456789abcdefABCDEF'')"
  using hexClass_iff by (simp add: hexClass_def)

lemma trimStart_id: "s \<noteq> [] \<Longrightarrow> \<not> isWhiteSpace (hd s) \<Longrightarrow> trimStart s = s"
  by (cases s) (auto simp: trimStart_def)

lemma trimEnd_id: "s \<noteq> [] \<Longrightarrow> \<not> isWhiteSpace (last s) \<Longrightarrow> trimEnd s = s"
proof -
  assume a: "s \<noteq> []" "\<not> isWhiteSpace (last s)"
  then have "rev s \<noteq> []" and "\<not> isWhiteSpace (hd (rev s))"
    by (simp_all add: hd_rev)
  then have "dropWhile isWhiteSpace (rev s) = rev s"
    by (cases "rev s") auto
  then show ?thesis by (simp add: trimEnd_def)
qed

lemma trim_hex: "s \<noteq> [] \<Longrightarrow> list_all isHexDigit s \<Longrightarrow> trim s = s"
proof -
  assume a: "s \<noteq> []" "list_all isHexDigit s"
  then have "isHexDigit (hd s)" and "isHexDigit (last s)"
    by (auto simp: list_all_iff)
  then show ?thesis
    using a by (simp add: trim_def trimStart_id trimEnd_id hex_not_white)
qed

lemma trim_space_hex:
  "s \<noteq> [] \<Longrightarrow> list_all isHexDigit s \<Longrightarrow> trim (CHR '' '' # s) = s"
proof -
  assume a: "s \<noteq> []" "list_all isHexDigit s"
  have "trimStart (CHR '' '' # s) = trimStart s"
    by (simp add: trimStart_def isWhiteSpace_def code_def)
  then have "trim (CHR '' '' # s) = trim s" by (simp add: trim_def)
  then show ?thesis using a by (simp add: trim_hex)
qed

lemma detectKeyFormat_Hex:
  "length t = 64 \<Longrightarrow> list_all isHexDigit t \<Longrightarrow> trim input = t \<Longrightarrow> detectKeyFormat input = Hex"
proof -
  assume a: "length t = 64" "list_all isHexDigit t" "trim input = t"
  have s: "set t \<subseteq> set ''0123456789abcdefABCDEF''"
    using a(2) unfolding list_all_iff isHexDigit_iff by blast
  have n1: "\<not> (\<exists>c rest. t = CHR ''5'' # c # rest \<and> length rest = 49)"
    using a(1) by auto
  have n2: "\<not> (\<exists>c rest. t = c # rest \<and> length rest = 51)"
    using a(1) by auto
  show ?thesis
    unfolding detectKeyFormat_chain a(3) using n1 n2 s a(1) by auto
qed

lemma code_lowerChar:
  "code (lowerChar c) = (if (65 \<le> code c \<and> code c \<le> 90) \<or> (192 \<le> code c \<and> code c \<le> 222 \<and> code c \<noteq> 215)
     then code c + 32 else code c)"
  by (auto simp: lowerChar_def in_range_def code_def)

lemma lowerChar_hex: "isHexDigit c \<Longrightarrow> isHexDigit (lowerChar c)"
  unfolding isHexDigit_def in_range_def code_lowerChar
  by (auto simp: code_def)

lemma lowerChar_hexDigitValue: "isHexDigit c \<Longrightarrow> hexDigitValue (lowerChar c) = hexDigitValue c"
  unfolding isHexDigit_def hexDigitValue_def in_range_def code_lowerChar
  by (auto simp: code_def)

lemma toLowerCase_hex: "list_all isHexDigit s \<Longrightarrow> list_all isHexDigit (toLowerCase s)"
  by (induction s) (auto simp: toLowerCase_def lowerChar_hex)

lemma foldl_hex_lower:
  "list_all isHexDigit s \<Longrightarrow>
   foldl (\<lambda>v c. v * 16 + hexDigitValue c) v0 (map lowerChar s)
     = foldl (\<lambda>v c. v * 16 + hexDigitValue c) v0 s"
  by (induction s arbitrary: v0) (auto simp: lowerChar_hexDigitValue)

lemma hexValue_toLowerCase: "list_all isHexDigit s \<Longrightarrow> hexValue (toLowerCase s) = hexValue s"
  by (simp add: hexValue_def toLowerCase_def foldl_hex_lower)

lemma BigInt_0x_hex:
  "s \<noteq> [] \<Longrightarrow> list_all isHexDigit s \<Longrightarrow> BigInt_0x s = Inr (int (hexValue s))"
proof -
  assume a: "s \<noteq> []" "list_all isHexDigit s"
  then have "isHexDigit (last s)" by (auto simp: list_all_iff)
  then have "trimEnd s = s" using a(1) by (simp add: trimEnd_id hex_not_white)
  then show ?thesis using a by (simp add: BigInt_0x_def)
qed

lemma BigInt_0x_space:
  "s \<noteq> [] \<Longrightarrow> list_all isHexDigit s \<Longrightarrow>
   BigInt_0x (CHR '' '' # s) = Inl (SyntaxError (''Cannot convert 0x '' @ s @ '' to a BigInt''))"
proof -
  assume a: "s \<noteq> []" "list_all isHexDigit s"
  then have "isHexDigit (last (CHR '' '' # s))" by (auto simp: list_all_iff)
  then have "trimEnd (CHR '' '' # s) = CHR '' '' # s"
    by (simp add: trimEnd_id hex_not_white del: last.simps)
  moreover have "\<not> isHexDigit CHR '' ''"
    by (simp add: isHexDigit_def in_range_def code_def)
  ultimately show ?thesis by (simp add: BigInt_0x_def)
qed

text \<open>What \<open>validatePrivateKey\<close> returns on 64 hexadecimal digits, by the value of the
  scalar.\<close>

lemma validate_try_hex:
  assumes "length h = 64" and "list_all isHexDigit h"
  shows "validate_try sha rmd now Hex h =
     (if hexValue h = 0 \<or> N \<le> int (hexValue h)
      then Inr (invalid_result Hex ''Private key out of valid range for secp256k1'' now)
      else (case privateKeyToPublicKey (toLowerCase h) True of
              Inl e \<Rightarrow> Inl e
            | Inr publicKey \<Rightarrow>
                Inr \<lparr>isValid = True, format = Hex,
                     address = Some (publicKeyToAddress sha rmd publicKey),
                     matchesPuzzle = (publicKeyToAddress sha rmd publicKey = GSMG_PUZZLE_ADDRESS),
                     checksum = True, error = None, timestamp = now\<rparr>))"
proof -
  have l: "toLowerCase h \<noteq> []" "list_all isHexDigit (toLowerCase h)"
    using assms by (auto simp: toLowerCase_hex) (simp add: toLowerCase_def)
  have b: "BigInt_0x (toLowerCase h) = Inr (int (hexValue h))"
    using BigInt_0x_hex [OF l] assms(2) by (simp add: hexValue_toLowerCase)
  show ?thesis
    unfolding validate_try_def Let_def b by simp
qed

lemma privateKeyToPublicKey_hex:
  assumes "s \<noteq> []" and "list_all isHexDigit s"
  shows "privateKeyToPublicKey s True =
     (case pointMultiply (int (hexValue s)) (Some \<lparr>x = Gx, y = Gy\<rparr>) of
        None \<Rightarrow> Inl (Error ''Invalid private key - results in point at infinity'')
      | Some publicPoint \<Rightarrow>
          Inr ((if bigint_rem (y publicPoint) 2 = 0 then ''02'' else ''03'')
               @ bigintToHex32 (x publicPoint)))"
  unfolding privateKeyToPublicKey_def BigInt_0x_hex [OF assms] Let_def
  by (simp split: option.splits)

section \<open>The result of the validator\<close>

lemma validate_hex:
  assumes "length h = 64" and "list_all isHexDigit h"
  shows "validatePrivateKey sha rmd now h =
     (case validate_try sha rmd now Hex h of
        Inr result \<Rightarrow> result
      | Inl e \<Rightarrow> invalid_result Hex (''Validation error: '' @ message e) now)"
proof -
  have "h \<noteq> []" using assms(1) by auto
  then have "trim h = h" using assms(2) by (rule trim_hex)
  then have "detectKeyFormat h = Hex"
    using assms by (simp add: detectKeyFormat_Hex)
  then show ?thesis by (simp add: validatePrivateKey_def)
qed

lemma validate_space_hex:
  assumes "length h = 64" and "list_all isHexDigit h"
  shows "detectKeyFormat (CHR '' '' # h) = Hex"
    and "validatePrivateKey sha rmd now (CHR '' '' # h) =
      invalid_result Hex
        (''Validation error: Cannot convert 0x '' @ toLowerCase h @ '' to a BigInt'') now"
proof -
  have ne: "h \<noteq> []" using assms(1) by auto
  have "trim (CHR '' '' # h) = h" using ne assms(2) by (rule trim_space_hex)
  then show d: "detectKeyFormat (CHR '' '' # h) = Hex"
    using assms by (simp add: detectKeyFormat_Hex)
  have l: "toLowerCase (CHR '' '' # h) = CHR '' '' # toLowerCase h"
    by (simp add: toLowerCase_def lowerChar_def in_range_def code_def)
  have "toLowerCase h \<noteq> []" using ne by (simp add: toLowerCase_def)
  then have b: "BigInt_0x (CHR '' '' # toLowerCase h) =
      Inl (SyntaxError (''Cannot convert 0x '' @ toLowerCase h @ '' to a BigInt''))"
    using assms(2) by (simp add: BigInt_0x_space toLowerCase_hex)
  have "validate_try sha rmd now Hex (CHR '' '' # h) =
      Inl (SyntaxError (''Cannot convert 0x '' @ toLowerCase h @ '' to a BigInt''))"
    unfolding validate_try_def Let_def l b by simp
  then show "validatePrivateKey sha rmd now (CHR '' '' # h) =
      invalid_result Hex
        (''Validation error: Cannot convert 0x '' @ toLowerCase h @ '' to a BigInt'') now"
    using d by (simp add: validatePrivateKey_def)
qed

lemma hex_one:
  "length ''0000000000000000000000000000000000000000000000000000000000000001'' = 64"
  "list_all isHexDigit ''0000000000000000000000000000000000000000000000000000000000000001''"
  "hexValue ''0000000000000000000000000000000000000000000000000000000000000001'' = 1"
  by (simp_all add: isHexDigit_def in_range_def code_def hexValue_def hexDigitValue_def)

text \<open>
  Claim C1. For every input string (and whatever the two digests of the library return)
  \<open>validatePrivateKey\<close> returns a result that is either valid, with an address and no
  error, or invalid with a non-empty error text, no address and both flags false. Every
  exception raised inside the \<open>try\<close> block (by \<open>BigInt\<close>, by the point at infinity) is
  turned into the result with the text \<open>Validation error: ...\<close>; the statements outside the
  block (format detection, the clock) raise nothing, and the loops of the arithmetic
  terminate, so the function returns on every input.
\<close>

theorem validatePrivateKey_structured:
  "(let r = validatePrivateKey sha rmd now input in
      (isValid r \<and> error r = None \<and> (\<exists>a. address r = Some a) \<and> checksum r)
      \<or> (\<not> isValid r \<and> (\<exists>e. error r = Some e \<and> e \<noteq> []) \<and> address r = None
           \<and> \<not> matchesPuzzle r \<and> \<not> checksum r))
   \<and> (\<forall>e. detectKeyFormat input \<noteq> Unknown
          \<and> validate_try sha rmd now (detectKeyFormat input) input = Inl e \<longrightarrow>
        validatePrivateKey sha rmd now input =
          invalid_result (detectKeyFormat input) (''Validation error: '' @ message e) now)"
proof -
  define fmt where "fmt = detectKeyFormat input"
  have t: "(\<exists>e. validate_try sha rmd now fmt input = Inl e)
     \<or> validate_try sha rmd now fmt input =
          Inr (invalid_result fmt ''Private key out of valid range for secp256k1'' now)
     \<or> validate_try sha rmd now fmt input =
          Inr (invalid_result fmt ''Invalid WIF checksum - key may be corrupted or mistyped'' now)
     \<or> (\<exists>a m. validate_try sha rmd now fmt input =
           Inr \<lparr>isValid = True, format = fmt, address = Some a, matchesPuzzle = m,
                checksum = True, error = None, timestamp = now\<rparr>)"
    unfolding validate_try_def Let_def
    by (simp split: sum.splits)
  show ?thesis
    unfolding validatePrivateKey_def Let_def fmt_def [symmetric]
    using t by (auto simp: invalid_result_def)
qed

theorem validatePrivateKey_structured_witness:
  "\<not> isValid (validatePrivateKey (\<lambda>b. b) (\<lambda>b. b) 0
        '' 0000000000000000000000000000000000000000000000000000000000000001'')
   \<and> error (validatePrivateKey (\<lambda>b. b) (\<lambda>b. b) 0
        '' 0000000000000000000000000000000000000000000000000000000000000001'') \<noteq> None"
  using validatePrivateKey_structured [of "\<lambda>b. b" "\<lambda>b. b" 0
      "'' 0000000000000000000000000000000000000000000000000000000000000001''"]
    validate_space_hex(2) [OF hex_one(1) hex_one(2),
      where sha = "\<lambda>b. b" and rmd = "\<lambda>b. b" and now = 0]
  by (simp add: invalid_result_def)

text \<open>
  Claim C10. Format detection trims, parsing does not. For 64 hexadecimal digits \<open>h\<close> whose
  scalar is in the valid range, the input made of one space and \<open>h\<close> is classified as hex,
  and \<open>validatePrivateKey\<close> returns an invalid result with an error: \<open>BigInt\<close> is applied to
  \<open>0x\<close> followed by the untrimmed input and throws. The digits alone pass the range check.
\<close>

theorem leading_space_hex_rejected:
  assumes "length h = 64" and "list_all isHexDigit h"
    and "0 < hexValue h" and "int (hexValue h) < N"
  shows "detectKeyFormat (CHR '' '' # h) = Hex
    \<and> \<not> isValid (validatePrivateKey sha rmd now (CHR '' '' # h))
    \<and> format (validatePrivateKey sha rmd now (CHR '' '' # h)) = Hex
    \<and> error (validatePrivateKey sha rmd now (CHR '' '' # h)) =
        Some (''Validation error: Cannot convert 0x '' @ toLowerCase h @ '' to a BigInt'')
    \<and> error (validatePrivateKey sha rmd now h) \<noteq>
        Some ''Private key out of valid range for secp256k1''"
proof -
  have "error (validatePrivateKey sha rmd now h) \<noteq>
        Some ''Private key out of valid range for secp256k1''"
    unfolding validate_hex [OF assms(1,2)] validate_try_hex [OF assms(1,2)]
    using assms(3,4) by (simp add: invalid_result_def split: sum.splits)
  then show ?thesis
    using validate_space_hex [OF assms(1,2)]
    by (simp add: invalid_result_def)
qed

theorem leading_space_hex_rejected_witness:
  "length ''0000000000000000000000000000000000000000000000000000000000000001'' = 64
   \<and> list_all isHexDigit ''0000000000000000000000000000000000000000000000000000000000000001''
   \<and> 0 < hexValue ''0000000000000000000000000000000000000000000000000000000000000001''
   \<and> int (hexValue ''0000000000000000000000000000000000000000000000000000000000000001'') < N
   \<and> detectKeyFormat '' 0000000000000000000000000000000000000000000000000000000000000001'' = Hex
   \<and> \<not> isValid (validatePrivateKey (\<lambda>b. b) (\<lambda>b. b) 0
          '' 0000000000000000000000000000000000000000000000000000000000000001'')"
proof -
  have r: "0 < hexValue ''0000000000000000000000000000000000000000000000000000000000000001''"
    "int (hexValue ''0000000000000000000000000000000000000000000000000000000000000001'') < N"
    by (simp_all add: hex_one(3) N_def)
  show ?thesis
    using leading_space_hex_rejected [OF hex_one(1) hex_one(2) r,
        where sha = "\<lambda>b. b" and rmd = "\<lambda>b. b" and now = 0]
      hex_one r
    by simp
qed

section \<open>Base58: decoding an encoded sequence of bytes\<close>


lemma lt16_cases: "(k::nat) < 16 = (k \<in> set [0..<16])"
  by auto

lemma lt58_cases: "(k::nat) < 58 = (k \<in> set [0..<58])"
  by auto

lemma hexDigitValue_hexDigits: "k < 16 \<Longrightarrow> hexDigitValue (hexDigits ! k) = k"
  unfolding lt16_cases
  by (auto simp: upt_conv_Cons hexDigits_def hexDigitValue_def in_range_def code_def)

lemma indexOf_nth: "distinct xs \<Longrightarrow> d < length xs \<Longrightarrow> indexOf xs (xs ! d) = Some d"
proof (induction xs arbitrary: d)
  case Nil
  then show ?case by simp
next
  case (Cons c cs)
  show ?case
  proof (cases d)
    case 0
    then show ?thesis by simp
  next
    case (Suc e)
    then have "e < length cs" using Cons.prems by simp
    moreover have "cs ! e \<noteq> c" using Cons.prems \<open>e < length cs\<close> by auto
    ultimately show ?thesis using Cons Suc by auto
  qed
qed

lemma alphabet_distinct: "distinct BASE58_ALPHABET \<and> length BASE58_ALPHABET = 58"
  by (simp add: BASE58_ALPHABET_def)

lemma indexOf_alphabet: "d < 58 \<Longrightarrow> indexOf BASE58_ALPHABET (BASE58_ALPHABET ! d) = Some d"
  using alphabet_distinct by (simp add: indexOf_nth)

lemma alphabet_not_one: "0 < d \<Longrightarrow> d < 58 \<Longrightarrow> BASE58_ALPHABET ! d \<noteq> CHR ''1''"
proof
  assume a: "0 < d" "d < 58" "BASE58_ALPHABET ! d = CHR ''1''"
  have "indexOf BASE58_ALPHABET CHR ''1'' = Some 0" by (simp add: BASE58_ALPHABET_def)
  then show False using indexOf_alphabet [OF a(2)] a(1,3) by simp
qed

lemma pos_div_rem: "0 < v \<Longrightarrow> bigint_div v 58 = v div 58 \<and> bigint_rem v 58 = v mod 58"
  by (simp add: bigint_div_def bigint_rem_def)

lemma base58_value_digits:
  "0 \<le> v \<Longrightarrow> base58_value 0 (base58_digits v acc) = base58_value v acc"
proof (induction v acc rule: base58_digits.induct)
  case (1 v result)
  show ?case
  proof (cases "v > 0")
    case True
    have m: "nat (v mod 58) < 58" using True by simp
    have "base58_value 0 (base58_digits v result)
        = base58_value 0 (base58_digits (v div 58) (BASE58_ALPHABET ! nat (v mod 58) # result))"
      using True by (subst base58_digits.simps) (simp add: pos_div_rem Let_def)
    also have "\<dots> = base58_value (v div 58) (BASE58_ALPHABET ! nat (v mod 58) # result)"
      using "1.IH" [of "nat (bigint_rem v 58)"] True by (simp add: pos_div_rem)
    also have "\<dots> = base58_value (v div 58 * 58 + int (nat (v mod 58))) result"
      by (simp add: indexOf_alphabet [OF m])
    also have "v div 58 * 58 + int (nat (v mod 58)) = v" using True by simp
    finally show ?thesis .
  next
    case False
    then have "v = 0" using 1 by simp
    then show ?thesis by (subst base58_digits.simps) simp
  qed
qed

lemma base58_digits_head:
  "0 < v \<Longrightarrow> base58_digits v acc \<noteq> [] \<and> hd (base58_digits v acc) \<noteq> CHR ''1''"
proof (induction v acc rule: base58_digits.induct)
  case (1 v result)
  have m: "nat (v mod 58) < 58" using 1 by simp
  have e: "base58_digits v result = base58_digits (v div 58) (BASE58_ALPHABET ! nat (v mod 58) # result)"
    using 1(2) by (subst base58_digits.simps) (simp add: pos_div_rem Let_def)
  show ?case
  proof (cases "v div 58 > 0")
    case True
    then show ?thesis
      using "1.IH" [of "nat (bigint_rem v 58)"] 1(2) e by (simp add: pos_div_rem)
  next
    case False
    then have z: "v div 58 = 0" using 1(2)
      by (smt (verit) pos_imp_zdiv_nonneg_iff)
    then have "v mod 58 = v" using 1(2)
      by (metis add.left_neutral mult_zero_right mult_div_mod_eq)
    then have "0 < nat (v mod 58)" using 1(2) by simp
    then have "BASE58_ALPHABET ! nat (v mod 58) \<noteq> CHR ''1''"
      using m by (rule alphabet_not_one)
    moreover have "base58_digits 0 (BASE58_ALPHABET ! nat (v mod 58) # result)
        = BASE58_ALPHABET ! nat (v mod 58) # result"
      by (subst base58_digits.simps) simp
    ultimately show ?thesis using e z by simp
  qed
qed

lemma base58_value_ones:
  "base58_value 0 (replicate n CHR ''1'' @ s) = base58_value 0 s"
  by (induction n) (simp_all add: BASE58_ALPHABET_def)

lemma takeWhile_ones:
  "s \<noteq> [] \<Longrightarrow> hd s \<noteq> c \<Longrightarrow> takeWhile (\<lambda>d. d = c) (replicate n c @ s) = replicate n c"
  by (induction n) (cases s, auto)+

text \<open>The value of a sequence of bytes, as the first loop of \<open>base58Encode\<close> computes it.\<close>

lemma foldl_bytes_int:
  "foldl (\<lambda>v byte. v * 256 + int byte) (int v0) bs = int (foldl (\<lambda>v byte. v * 256 + byte) v0 bs)"
proof (induction bs arbitrary: v0)
  case Nil
  show ?case by simp
next
  case (Cons a bs)
  show ?case using Cons [of "v0 * 256 + a"] by simp
qed

lemma foldl_bytes_zeros:
  "foldl (\<lambda>v byte. v * 256 + byte) (0::nat) (replicate n 0 @ bs) = foldl (\<lambda>v byte. v * 256 + byte) 0 bs"
  by (induction n) simp_all

lemma natToString16_byte:
  assumes "1 \<le> w" and "b < 256"
  shows "natToString16 (w * 256 + b) = natToString16 w @ [hexDigits ! (b div 16), hexDigits ! (b mod 16)]"
proof -
  have 1: "natToString16 (w * 256 + b) = natToString16 (w * 16 + b div 16) @ [hexDigits ! (b mod 16)]"
  proof -
    have k: "w * 256 + b = 16 * (w * 16) + b" by simp
    have "\<not> w * 256 + b < 16" using assms by simp
    moreover have "(w * 256 + b) div 16 = w * 16 + b div 16"
      unfolding k by (rule div_mult_self4) simp
    moreover have "(w * 256 + b) mod 16 = b mod 16"
      unfolding k by (rule mod_mult_self4)
    ultimately show ?thesis by (subst natToString16.simps) simp
  qed
  have 2: "natToString16 (w * 16 + b div 16) = natToString16 w @ [hexDigits ! (b div 16)]"
  proof -
    have "b div 16 < 16" using assms by simp
    then have "\<not> w * 16 + b div 16 < 16" "(w * 16 + b div 16) div 16 = w" "(w * 16 + b div 16) mod 16 = b div 16"
      using assms by simp_all
    then show ?thesis by (subst natToString16.simps) simp
  qed
  show ?thesis using 1 2 by simp
qed

lemma hexToBytes_append2:
  "even (length s) \<Longrightarrow> hexToBytes (s @ [c, d]) = hexToBytes s @ [parseInt16 [c, d]]"
  by (induction s rule: hexToBytes.induct) simp_all

lemma parseInt16_byte:
  "b < 256 \<Longrightarrow> parseInt16 [hexDigits ! (b div 16), hexDigits ! (b mod 16)] = b"
proof -
  assume "b < 256"
  then have "b div 16 < 16" "b mod 16 < 16" by simp_all
  then show ?thesis
    by (simp add: parseInt16_def hexValue_def hexDigitValue_hexDigits)
qed


lemma evenHex_first:
  assumes "0 < b" and "b < 256"
  shows "evenHex b = [hexDigits ! (b div 16), hexDigits ! (b mod 16)]"
proof (cases "b < 16")
  case True
  then have "natToString16 b = [hexDigits ! b]" by (subst natToString16.simps) simp
  moreover have "hexDigits ! 0 = CHR ''0''" by (simp add: hexDigits_def)
  ultimately show ?thesis using True by (simp add: evenHex_def)
next
  case False
  have "b div 16 < 16" using assms by simp
  then have "natToString16 (b div 16) = [hexDigits ! (b div 16)]"
    by (subst natToString16.simps) simp
  then have "natToString16 b = [hexDigits ! (b div 16), hexDigits ! (b mod 16)]"
    using False by (subst natToString16.simps) simp
  then show ?thesis by (simp add: evenHex_def)
qed

lemma evenHex_step:
  assumes "1 \<le> w" and "c < 256"
  shows "evenHex (w * 256 + c) = evenHex w @ [hexDigits ! (c div 16), hexDigits ! (c mod 16)]"
proof -
  have s: "natToString16 (w * 256 + c) = natToString16 w @ [hexDigits ! (c div 16), hexDigits ! (c mod 16)]"
    using assms by (rule natToString16_byte)
  show ?thesis unfolding evenHex_def s Let_def by simp
qed


lemma bytes_ok_first: "0 < b \<Longrightarrow> b < 256 \<Longrightarrow> bytes_ok [b]"
  by (simp add: bytes_ok_def evenHex_first parseInt16_byte)

lemma bytes_ok_snoc:
  assumes "bytes_ok bs" and "c < 256"
  shows "bytes_ok (bs @ [c])"
proof -
  define w where "w = foldl (\<lambda>v byte. v * 256 + byte) 0 bs"
  have ih: "1 \<le> w" "even (length (evenHex w))" "hexToBytes (evenHex w) = bs"
    using assms(1) by (simp_all add: w_def bytes_ok_def)
  have v: "foldl (\<lambda>v byte. v * 256 + byte) 0 (bs @ [c]) = w * 256 + c"
    unfolding foldl_append w_def by simp
  have e: "evenHex (w * 256 + c) = evenHex w @ [hexDigits ! (c div 16), hexDigits ! (c mod 16)]"
    using ih(1) assms(2) by (rule evenHex_step)
  have h: "hexToBytes (evenHex (w * 256 + c)) = bs @ [c]"
    unfolding e using ih(2,3) assms(2) by (simp add: hexToBytes_append2 parseInt16_byte)
  have "1 \<le> w * 256 + c" using ih(1) by simp
  moreover have "even (length (evenHex (w * 256 + c)))" unfolding e using ih(2) by simp
  ultimately show ?thesis unfolding bytes_ok_def v using h by simp
qed

lemma evenHex_bytes:
  "0 < b \<Longrightarrow> b < 256 \<Longrightarrow> list_all (\<lambda>c. c < 256) bs \<Longrightarrow> bytes_ok (b # bs)"
proof (induction bs rule: rev_induct)
  case Nil
  then show ?case by (simp add: bytes_ok_first)
next
  case (snoc c cs)
  then have "bytes_ok (b # cs)" and "c < 256" by simp_all
  then have "bytes_ok ((b # cs) @ [c])" by (rule bytes_ok_snoc)
  then show ?case by simp
qed

lemma takeWhile_replicate:
  "takeWhile (\<lambda>b. b = c) bs = replicate (length (takeWhile (\<lambda>b. b = c) bs)) c"
  by (induction bs) simp_all

lemma base58Encode_shape:
  assumes "list_all (\<lambda>b. b < 256) rest" and "rest \<noteq> []" and "hd rest \<noteq> 0"
  shows "base58Encode (replicate n 0 @ rest)
      = replicate n CHR ''1'' @ base58_digits (int (foldl (\<lambda>v byte. v * 256 + byte) 0 rest)) []"
    and "bytes_ok rest"
proof -
  obtain b0 more where r: "rest = b0 # more" using assms(2) by (cases rest) auto
  then have "0 < b0" "b0 < 256" "list_all (\<lambda>c. c < 256) more" using assms by simp_all
  then show ok: "bytes_ok rest" unfolding r by (rule evenHex_bytes)
  define w where "w = foldl (\<lambda>v byte. v * 256 + byte) 0 rest"
  have w: "1 \<le> w" using ok by (simp add: bytes_ok_def w_def)
  have "foldl (\<lambda>v byte. v * 256 + int byte) 0 (replicate n 0 @ rest)
      = foldl (\<lambda>v byte. v * 256 + int byte) (int 0) (replicate n 0 @ rest)"
    by simp
  also have "\<dots> = int (foldl (\<lambda>v byte. v * 256 + byte) 0 (replicate n 0 @ rest))"
    by (rule foldl_bytes_int)
  also have "foldl (\<lambda>v byte. v * 256 + byte) 0 (replicate n 0 @ rest) = w"
    unfolding w_def by (rule foldl_bytes_zeros)
  finally have v: "foldl (\<lambda>v byte. v * 256 + int byte) 0 (replicate n 0 @ rest) = int w" .
  have t: "takeWhile (\<lambda>b. b = 0) (replicate n 0 @ rest) = replicate n 0"
    using takeWhile_ones [OF assms(2,3)] by simp
  have d: "base58_digits (int w) [] \<noteq> []" using base58_digits_head [of "int w" "[]"] w by simp
  show "base58Encode (replicate n 0 @ rest)
      = replicate n CHR ''1'' @ base58_digits (int (foldl (\<lambda>v byte. v * 256 + byte) 0 rest)) []"
    unfolding base58Encode_def Let_def v t w_def [symmetric] using d by simp
qed

lemma base58Decode_shape:
  assumes "1 \<le> w"
  shows "base58Decode (replicate n CHR ''1'' @ base58_digits (int w) [])
      = Inr (replicate n 0 @ hexToBytes (evenHex w))"
proof -
  have h: "base58_digits (int w) [] \<noteq> []" "hd (base58_digits (int w) []) \<noteq> CHR ''1''"
    using base58_digits_head [of "int w" "[]"] assms by simp_all
  have v: "base58_value 0 (replicate n CHR ''1'' @ base58_digits (int w) []) = Inr (int w)"
    unfolding base58_value_ones using base58_value_digits [of "int w" "[]"] by simp
  have t: "takeWhile (\<lambda>c. c = CHR ''1'') (replicate n CHR ''1'' @ base58_digits (int w) [])
      = replicate n CHR ''1''"
    using h by (rule takeWhile_ones)
  have s: "toString16 (int w) = natToString16 w" by (simp add: toString16_def)
  show ?thesis
    by (simp add: base58Decode_def v t s evenHex_def Let_def)
qed

lemma base58_decode_encode:
  assumes "list_all (\<lambda>b. b < 256) bytes" and "\<exists>b \<in> set bytes. b \<noteq> 0"
  shows "base58Decode (base58Encode bytes) = Inr bytes"
proof -
  define n where "n = length (takeWhile (\<lambda>b. b = 0) bytes)"
  define rest where "rest = dropWhile (\<lambda>b. b = 0) bytes"
  have "takeWhile (\<lambda>b. b = 0) bytes = replicate n 0"
    unfolding n_def by (rule takeWhile_replicate)
  then have b: "bytes = replicate n 0 @ rest"
    unfolding rest_def by (metis takeWhile_dropWhile_id)
  have ne: "rest \<noteq> []" using assms(2) unfolding rest_def by (simp add: dropWhile_eq_Nil_conv)
  have hd: "hd rest \<noteq> 0" using ne hd_dropWhile [of "\<lambda>b. b = 0" bytes] unfolding rest_def by simp
  have all: "list_all (\<lambda>b. b < 256) rest" using assms(1) unfolding b by simp
  define w where "w = foldl (\<lambda>v byte. v * 256 + byte) 0 rest"
  have ok: "bytes_ok rest" using all ne hd by (rule base58Encode_shape(2))
  then have w: "1 \<le> w" and r: "hexToBytes (evenHex w) = rest"
    by (simp_all add: bytes_ok_def w_def)
  have "base58Encode bytes = replicate n CHR ''1'' @ base58_digits (int w) []"
    unfolding b w_def using all ne hd by (rule base58Encode_shape(1))
  then show ?thesis
    using base58Decode_shape [OF w, of n] r b by simp
qed

text \<open>
  Claim C3, as the code has it. For every sequence of bytes (numbers below 256) with at
  least one nonzero byte, \<open>base58Decode (base58Encode b)\<close> is \<open>b\<close>; its leading zero bytes
  come back as they were.
\<close>

theorem base58_roundtrip:
  assumes "list_all (\<lambda>b. b < 256) bytes" and "\<exists>b \<in> set bytes. b \<noteq> 0"
  shows "base58Decode (base58Encode bytes) = Inr bytes"
  using assms by (rule base58_decode_encode)

theorem base58_roundtrip_witness:
  "list_all (\<lambda>b. b < 256) [0, 0, 1, 2::nat] \<and> (\<exists>b \<in> set [0, 0, 1, 2::nat]. b \<noteq> 0)
   \<and> base58Decode (base58Encode [0, 0, 1, 2]) = Inr [0, 0, 1, 2]"
proof -
  have h: "list_all (\<lambda>b. b < 256) [0, 0, 1, 2::nat]" "\<exists>b \<in> set [0, 0, 1, 2::nat]. b \<noteq> 0"
    by simp_all
  show ?thesis using base58_roundtrip [OF h] h by simp
qed

text \<open>
  The claim as the specification words it includes the empty sequence, where it fails:
  \<open>base58Encode\<close> returns \<open>1\<close> for the empty sequence (the source's
  \<open>result || "1"\<close>), and \<open>base58Decode\<close> of \<open>1\<close> is two zero bytes.
\<close>

theorem base58_roundtrip_empty_counterexample:
  "base58Decode (base58Encode []) = Inr [0, 0] \<and> base58Decode (base58Encode []) \<noteq> Inr []"
  by code_simp

section \<open>Generators: what they yield\<close>

lemma valid64_iff: "valid64 s = (length s = 64 \<and> list_all isHexDigit s)"
  by (auto simp: valid64_def hexClass_def list_all_iff)

lemma valid64_toLowerCase: "valid64 s \<Longrightarrow> valid64 (toLowerCase s)"
  unfolding valid64_iff using toLowerCase_hex by (simp add: toLowerCase_def)

lemma addResult_invalid:
  "\<not> valid64 c \<Longrightarrow> addResult clock eng c l s = (None, eng)"
  unfolding addResult_def valid64_def [symmetric] by simp

lemma addResult_valid:
  assumes "valid64 c"
  shows "\<exists>r eng'. addResult clock eng c l s = (Some r, eng') \<and> key r = toLowerCase c
     \<and> results eng' = results eng @ [r] \<and> shouldStop eng' = shouldStop eng"
  unfolding addResult_def Let_def valid64_def [symmetric] using assms by simp

lemma resume_Some:
  "resume clock eng steps = (Some r, eng', steps') \<Longrightarrow>
   valid64 (key r) \<and> results eng' = results eng @ [r] \<and> shouldStop eng' = shouldStop eng"
proof (induction clock eng steps rule: resume.induct)
  case (1 clock eng)
  then show ?case by simp
next
  case (2 clock eng steps)
  then show ?case by (simp split: if_splits)
next
  case (3 clock eng c l s steps)
  show ?case
  proof (cases "valid64 c")
    case True
    then obtain r0 e0 where a: "addResult clock eng c l s = (Some r0, e0)" "key r0 = toLowerCase c"
      "results e0 = results eng @ [r0]" "shouldStop e0 = shouldStop eng"
      using addResult_valid by blast
    then show ?thesis using 3(2) True by (simp add: valid64_toLowerCase)
  next
    case False
    then have a: "addResult clock eng c l s = (None, eng)" by (rule addResult_invalid)
    then show ?thesis using 3 by simp
  qed
qed

lemma resume_None:
  "resume clock eng steps = (None, eng', steps') \<Longrightarrow>
   results eng' = results eng \<and> shouldStop eng' = shouldStop eng \<and> steps' = []"
proof (induction clock eng steps rule: resume.induct)
  case (1 clock eng)
  then show ?case by simp
next
  case (2 clock eng steps)
  then show ?case by (simp split: if_splits)
next
  case (3 clock eng c l s steps)
  show ?case
  proof (cases "valid64 c")
    case True
    then obtain r0 e0 where a: "addResult clock eng c l s = (Some r0, e0)"
      using addResult_valid by blast
    then show ?thesis using 3(2) by simp
  next
    case False
    then have a: "addResult clock eng c l s = (None, eng)" by (rule addResult_invalid)
    then show ?thesis using 3 by simp
  qed
qed

lemma drain_Nil: "drain clock eng [] = ([], eng)"
  by (subst drain.simps) simp

lemma drain_CheckStop:
  "drain clock eng (CheckStop # steps) = (if shouldStop eng then ([], eng) else drain clock eng steps)"
  by (subst drain.simps, subst (2) drain.simps) simp

lemma drain_Try_invalid:
  "\<not> valid64 c \<Longrightarrow> drain clock eng (Try c l s # steps) = drain clock eng steps"
  by (subst drain.simps, subst (2) drain.simps) (simp add: addResult_invalid)

lemma drain_Try_valid:
  "addResult clock eng c l s = (Some r, eng') \<Longrightarrow>
   drain clock eng (Try c l s # steps) = (r # fst (drain clock eng' steps), snd (drain clock eng' steps))"
  by (subst drain.simps) (simp split: prod.splits)

lemma drain_results:
  "drain clock eng steps = (rs, eng') \<Longrightarrow>
   results eng' = results eng @ rs \<and> list_all (\<lambda>r. valid64 (key r)) rs \<and> shouldStop eng' = shouldStop eng"
proof (induction steps arbitrary: eng rs eng')
  case Nil
  then show ?case by (simp add: drain_Nil)
next
  case (Cons st steps)
  show ?case
  proof (cases st)
    case CheckStop
    then show ?thesis using Cons by (auto simp: drain_CheckStop split: if_splits)
  next
    case (Try c l s)
    show ?thesis
    proof (cases "valid64 c")
      case True
      then obtain r0 e0 where a: "addResult clock eng c l s = (Some r0, e0)" "key r0 = toLowerCase c"
        "results e0 = results eng @ [r0]" "shouldStop e0 = shouldStop eng"
        using addResult_valid by blast
      obtain rs0 e1 where d: "drain clock e0 steps = (rs0, e1)" by (cases "drain clock e0 steps") auto
      have "rs = r0 # rs0" "eng' = e1" using Cons.prems Try a(1) d by (simp_all add: drain_Try_valid)
      then show ?thesis using Cons.IH [OF d] a True by (simp add: valid64_toLowerCase)
    next
      case False
      then show ?thesis using Cons Try by (simp add: drain_Try_invalid)
    qed
  qed
qed

lemma drain_keys:
  "\<not> shouldStop eng \<Longrightarrow>
   map key (fst (drain clock eng steps)) = map toLowerCase (filter valid64 (candidates steps))"
proof (induction steps arbitrary: eng)
  case Nil
  then show ?case by (simp add: drain_Nil)
next
  case (Cons st steps)
  show ?case
  proof (cases st)
    case CheckStop
    then show ?thesis using Cons by (simp add: drain_CheckStop)
  next
    case (Try c l s)
    show ?thesis
    proof (cases "valid64 c")
      case True
      then obtain r0 e0 where a: "addResult clock eng c l s = (Some r0, e0)" "key r0 = toLowerCase c"
        "results e0 = results eng @ [r0]" "shouldStop e0 = shouldStop eng"
        using addResult_valid by blast
      then have "\<not> shouldStop e0" using Cons.prems by simp
      then show ?thesis using Cons.IH [of e0] a True Try by (simp add: drain_Try_valid)
    next
      case False
      then show ?thesis using Cons Try by (simp add: drain_Try_invalid)
    qed
  qed
qed

lemma runAll_drain_Nil: "runAll_drain clock eng [] = ([], eng)"
  by (subst runAll_drain.simps) simp

lemma runAll_drain_cong:
  "runAll_resume clock eng gens = runAll_resume clock eng2 gens2 \<Longrightarrow>
   runAll_drain clock eng gens = runAll_drain clock eng2 gens2"
  by (subst runAll_drain.simps, subst (2) runAll_drain.simps) simp

lemma runAll_drain_empty_gen: "runAll_drain clock eng ([] # gens) = runAll_drain clock eng gens"
  by (rule runAll_drain_cong) simp

lemma runAll_drain_CheckStop:
  "\<not> shouldStop eng \<Longrightarrow>
   runAll_drain clock eng ((CheckStop # steps) # gens) = runAll_drain clock eng (steps # gens)"
  by (rule runAll_drain_cong) simp

lemma runAll_drain_invalid:
  "\<not> valid64 c \<Longrightarrow>
   runAll_drain clock eng ((Try c l s # steps) # gens) = runAll_drain clock eng (steps # gens)"
  by (rule runAll_drain_cong) (simp add: addResult_invalid)

lemma runAll_drain_valid:
  "addResult clock eng c l s = (Some r, eng') \<Longrightarrow> \<not> shouldStop eng' \<Longrightarrow>
   runAll_drain clock eng ((Try c l s # steps) # gens)
     = (r # fst (runAll_drain clock eng' (steps # gens)), snd (runAll_drain clock eng' (steps # gens)))"
  by (subst runAll_drain.simps) (simp split: prod.splits)

lemma runAll_drain_gen:
  "\<not> shouldStop eng \<Longrightarrow>
   map key (fst (runAll_drain clock eng (gen # gens)))
     = map toLowerCase (filter valid64 (candidates gen))
       @ map key (fst (runAll_drain clock (snd (drain clock eng gen)) gens))"
proof (induction gen arbitrary: eng)
  case Nil
  then show ?case by (simp add: runAll_drain_empty_gen drain_Nil)
next
  case (Cons st steps)
  show ?case
  proof (cases st)
    case CheckStop
    then show ?thesis using Cons by (simp add: runAll_drain_CheckStop drain_CheckStop)
  next
    case (Try c l s)
    show ?thesis
    proof (cases "valid64 c")
      case True
      then obtain r0 e0 where a: "addResult clock eng c l s = (Some r0, e0)" "key r0 = toLowerCase c"
        "results e0 = results eng @ [r0]" "shouldStop e0 = shouldStop eng"
        using addResult_valid by blast
      then have n: "\<not> shouldStop e0" using Cons.prems by simp
      show ?thesis
        using Cons.IH [OF n] a True Try n
        by (simp add: runAll_drain_valid drain_Try_valid)
    next
      case False
      then show ?thesis using Cons Try by (simp add: runAll_drain_invalid drain_Try_invalid)
    qed
  qed
qed

lemma drain_keeps_flag: "shouldStop (snd (drain clock eng steps)) = shouldStop eng"
  using drain_results [of clock eng steps] by (cases "drain clock eng steps") simp

lemma candidates_append: "candidates (a @ b) = candidates a @ candidates b"
  by (induction a rule: candidates.induct) simp_all

lemma candidates_concat: "candidates (concat gens) = concat (map candidates gens)"
  by (induction gens) (simp_all add: candidates_append)

lemma runAll_drain_keys:
  "\<not> shouldStop eng \<Longrightarrow>
   map key (fst (runAll_drain clock eng gens))
     = map toLowerCase (filter valid64 (candidates (concat gens)))"
proof (induction gens arbitrary: eng)
  case Nil
  then show ?case by (simp add: runAll_drain_Nil)
next
  case (Cons gen gens)
  have "\<not> shouldStop (snd (drain clock eng gen))" using Cons.prems by (simp add: drain_keeps_flag)
  then show ?case
    using Cons.IH runAll_drain_gen [OF Cons.prems] by (simp add: candidates_append)
qed

lemma run_strategies_Cons:
  "fst (run_strategies sha kdf clock eng (s # ss))
     = fst (drain clock eng (generator sha kdf s))
       @ fst (run_strategies sha kdf clock (snd (drain clock eng (generator sha kdf s))) ss)"
  by (cases "drain clock eng (generator sha kdf s)") (simp split: prod.splits)

lemma run_strategies_keys:
  "\<not> shouldStop eng \<Longrightarrow>
   map key (fst (run_strategies sha kdf clock eng ss))
     = map toLowerCase (filter valid64 (candidates (concat (map (generator sha kdf) ss))))"
proof (induction ss arbitrary: eng)
  case Nil
  then show ?case by simp
next
  case (Cons s ss)
  have n: "\<not> shouldStop (snd (drain clock eng (generator sha kdf s)))"
    using Cons.prems by (simp add: drain_keeps_flag)
  show ?case
    unfolding run_strategies_Cons
    using Cons.IH [OF n] drain_keys [OF Cons.prems, of clock "generator sha kdf s"]
    by (simp add: candidates_append)
qed

lemma drain_valid: "list_all (\<lambda>r. valid64 (key r)) (fst (drain clock eng steps))"
  using drain_results [of clock eng steps] by (cases "drain clock eng steps") simp

lemma run_strategies_valid:
  "list_all (\<lambda>r. valid64 (key r)) (fst (run_strategies sha kdf clock eng ss))"
proof (induction ss arbitrary: eng)
  case Nil
  then show ?case by simp
next
  case (Cons s ss)
  show ?case unfolding run_strategies_Cons using Cons drain_valid by simp
qed

text \<open>Every result of \<open>runAllDerivations\<close> is a result of one of its generators.\<close>

lemma runAll_resume_Some:
  "runAll_resume clock eng gens = (Some r, eng', gens') \<Longrightarrow> valid64 (key r)"
proof (induction gens arbitrary: eng)
  case Nil
  then show ?case by simp
next
  case (Cons gen gens)
  obtain res e g where f: "resume clock eng gen = (res, e, g)"
    by (cases "resume clock eng gen") auto
  show ?case
  proof (cases res)
    case None
    then show ?thesis using Cons f by simp
  next
    case (Some a)
    then have "valid64 (key a)" using f resume_Some by blast
    then show ?thesis using Cons.prems f Some by (simp split: if_splits)
  qed
qed

lemma runAll_drain_valid_all:
  "list_all (\<lambda>r. valid64 (key r)) (fst (runAll_drain clock eng gens))"
proof (induction "length (concat gens) + length gens" arbitrary: eng gens rule: less_induct)
  case less
  obtain res e g where f: "runAll_resume clock eng gens = (res, e, g)"
    by (cases "runAll_resume clock eng gens") auto
  show ?case
  proof (cases res)
    case None
    then show ?thesis using f by (subst runAll_drain.simps) simp
  next
    case (Some a)
    then have v: "valid64 (key a)" using f runAll_resume_Some by blast
    have "length (concat g) + length g < length (concat gens) + length gens"
      using f Some runAll_resume_length by blast
    then have "list_all (\<lambda>r. valid64 (key r)) (fst (runAll_drain clock e g))"
      by (rule less)
    then show ?thesis using f Some v
      by (subst runAll_drain.simps) (auto split: prod.splits)
  qed
qed

section \<open>Generators: the stop flag\<close>

lemma drain_stopped_bound:
  "shouldStop eng \<Longrightarrow> length (fst (drain clock eng steps)) \<le> length (takeWhile is_Try steps)"
proof (induction steps arbitrary: eng)
  case Nil
  then show ?case by (simp add: drain_Nil)
next
  case (Cons st steps)
  show ?case
  proof (cases st)
    case CheckStop
    then show ?thesis using Cons by (simp add: drain_CheckStop)
  next
    case (Try c l s)
    show ?thesis
    proof (cases "valid64 c")
      case True
      then obtain r0 e0 where a: "addResult clock eng c l s = (Some r0, e0)" "key r0 = toLowerCase c"
        "results e0 = results eng @ [r0]" "shouldStop e0 = shouldStop eng"
        using addResult_valid by blast
      then have "shouldStop e0" using Cons.prems by simp
      then show ?thesis using Cons.IH [of e0] a Try by (simp add: drain_Try_valid)
    next
      case False
      then show ?thesis using Cons.IH [OF Cons.prems] Try
        by (simp add: drain_Try_invalid)
    qed
  qed
qed

lemma drain_stopped_checked:
  "shouldStop eng \<Longrightarrow> checked steps \<Longrightarrow> drain clock eng steps = ([], eng)"
  by (cases steps) (simp_all add: checked_def drain_Nil drain_CheckStop)

lemma tries_ok_run:
  "j \<le> 3 \<Longrightarrow> tries_ok j steps \<Longrightarrow> j + length (takeWhile is_Try steps) \<le> 3"
proof (induction steps arbitrary: j)
  case Nil
  then show ?case by simp
next
  case (Cons st steps)
  show ?case
  proof (cases st)
    case CheckStop
    then show ?thesis using Cons.prems by simp
  next
    case (Try c l s)
    then have "Suc j \<le> 3" "tries_ok (Suc j) steps" using Cons.prems by simp_all
    then have "Suc j + length (takeWhile is_Try steps) \<le> 3" by (rule Cons.IH)
    then show ?thesis using Try by simp
  qed
qed

lemma tries_ok_after:
  "tries_ok k (pre @ t # rest) \<Longrightarrow> is_Try t \<Longrightarrow> length (takeWhile is_Try rest) \<le> 2"
proof (induction pre arbitrary: k)
  case Nil
  then obtain c l s where "t = Try c l s" by (cases t) auto
  then have "Suc k \<le> 3" "tries_ok (Suc k) rest" using Nil by simp_all
  then have "Suc k + length (takeWhile is_Try rest) \<le> 3" by (rule tries_ok_run)
  then show ?case by simp
next
  case (Cons st pre)
  then show ?case by (cases st) auto
qed

lemma tries_ok_checked: "checked steps \<Longrightarrow> tries_ok k steps = tries_ok 0 steps"
  by (cases steps) (auto simp: checked_def)

lemma tries_ok_append_checked:
  "tries_ok k a \<Longrightarrow> checked b \<Longrightarrow> tries_ok 0 b \<Longrightarrow> tries_ok k (a @ b)"
proof (induction a arbitrary: k)
  case Nil
  then show ?case using tries_ok_checked [of b k] by simp
next
  case (Cons st a)
  then show ?case by (cases st) auto
qed

lemma good_Nil: "good []"
  by (simp add: good_def checked_def)

lemma good_append: "good a \<Longrightarrow> good b \<Longrightarrow> good (a @ b)"
  by (cases a) (auto simp: good_def checked_def tries_ok_append_checked)

lemma good_concat: "(\<And>b. b \<in> set bs \<Longrightarrow> good (f b)) \<Longrightarrow> good (concat (map f bs))"
  by (induction bs) (simp_all add: good_Nil good_append)

lemma good_CheckStop: "good steps \<Longrightarrow> good (CheckStop # steps)"
  by (simp add: good_def checked_def tries_ok_checked)

lemma good_block1: "good [CheckStop, Try c l s]"
  by (simp add: good_def checked_def)

lemma good_block2: "good [CheckStop, Try c l s, Try c2 l2 s2]"
  by (simp add: good_def checked_def)

lemma good_block3: "good [CheckStop, Try c l s, Try c2 l2 s2, Try c3 l3 s3]"
  by (simp add: good_def checked_def)

lemma combinations_nonempty: "k \<le> length arr \<Longrightarrow> combinations arr k \<noteq> []"
proof (induction arr arbitrary: k)
  case Nil
  then show ?case by (subst combinations.simps) simp
next
  case (Cons a arr)
  show ?case
  proof (cases k)
    case 0
    then show ?thesis by (subst combinations.simps) simp
  next
    case (Suc j)
    then have "combinations arr j \<noteq> []" using Cons by simp
    then show ?thesis using Suc Cons.prems by (subst combinations.simps) simp
  qed
qed

lemma concat_map_last:
  "bs \<noteq> [] \<Longrightarrow> concat (map f bs) = concat (map f (butlast bs)) @ f (last bs)"
  by (induction bs) auto

lemma good_ABBA: "good (generateABBAPermutations sha)"
  unfolding generateABBAPermutations_def
  by (intro good_concat good_CheckStop good_block3)

lemma good_XOR: "good (generateXORChains sha)"
  unfolding generateXORChains_def
  by (intro good_append good_concat good_block2 good_block1)

lemma good_Beaufort: "good (generateBeaufortDerivations sha)"
  unfolding generateBeaufortDerivations_def
  by (intro good_append good_concat good_block3 good_block1)

lemma good_PBKDF2: "good (generatePBKDF2Derivations kdf)"
  unfolding generatePBKDF2Derivations_def
  by (intro good_append good_concat good_block2 good_block1)

lemma good_BIP39: "good (generateBIP39Style sha kdf)"
  unfolding generateBIP39Style_def
  by (intro good_append good_concat good_block2 good_block1)

lemma good_Matrix: "good (generateMatrixDerivations sha)"
  unfolding generateMatrixDerivations_def
  by (intro good_append good_concat good_block2 good_block1)

lemma good_Phrase: "good (generatePhraseCombinatins sha)"
proof -
  define blk where "blk = (\<lambda>size combo. [CheckStop,
            Try (sha256_text sha (join [] combo))
              (''Phrase-Combo-SHA256('' @ Number_toString size @ '')'') combo])"
  define t1 where "t1 = Try (sha256_text sha claimedPassword) ''Claimed-Solution-SHA256'' [claimedPassword]"
  define t2 where "t2 = Try (doubleSha256_text sha claimedPassword) ''Claimed-Solution-DoubleSHA256''
          [claimedPassword]"
  define A where "A = concat (map (\<lambda>pw.
       [CheckStop,
        Try (sha256_text sha pw) ''Direct-SHA256'' [pw],
        Try (doubleSha256_text sha pw) ''Direct-DoubleSHA256'' [pw]])
       PUZZLE_PASSWORDS)"
  have g: "generatePhraseCombinatins sha
      = A @ concat (map (\<lambda>size. concat (map (blk size) (combinations PUZZLE_PASSWORDS size))) [2..<5]) @ [t1, t2]"
    unfolding generatePhraseCombinatins_def A_def blk_def t1_def t2_def by (rule refl)
  have u: "[2..<5] = [2, 3, 4::nat]" by (simp add: upt_conv_Cons)
  have ne: "combinations PUZZLE_PASSWORDS 4 \<noteq> []"
    by (rule combinations_nonempty) (simp add: PUZZLE_PASSWORDS_def)
  have l: "concat (map (blk 4) (combinations PUZZLE_PASSWORDS 4))
      = concat (map (blk 4) (butlast (combinations PUZZLE_PASSWORDS 4))) @ blk 4 (last (combinations PUZZLE_PASSWORDS 4))"
    using ne by (rule concat_map_last)
  have gA: "good A" unfolding A_def by (intro good_concat good_block2)
  have gb: "\<And>n cs. good (concat (map (blk n) cs))"
    unfolding blk_def by (intro good_concat good_block1)
  have last: "good (blk 4 (last (combinations PUZZLE_PASSWORDS 4)) @ [t1, t2])"
    unfolding blk_def t1_def t2_def by (simp add: good_block3)
  have "generatePhraseCombinatins sha
      = A @ concat (map (blk 2) (combinations PUZZLE_PASSWORDS 2))
          @ concat (map (blk 3) (combinations PUZZLE_PASSWORDS 3))
          @ concat (map (blk 4) (butlast (combinations PUZZLE_PASSWORDS 4)))
          @ (blk 4 (last (combinations PUZZLE_PASSWORDS 4)) @ [t1, t2])"
    unfolding g u using l by simp
  moreover have "good (A @ concat (map (blk 2) (combinations PUZZLE_PASSWORDS 2))
          @ concat (map (blk 3) (combinations PUZZLE_PASSWORDS 3))
          @ concat (map (blk 4) (butlast (combinations PUZZLE_PASSWORDS 4)))
          @ (blk 4 (last (combinations PUZZLE_PASSWORDS 4)) @ [t1, t2]))"
    by (rule good_append [OF gA good_append [OF gb good_append [OF gb good_append [OF gb last]]]])
  ultimately show ?thesis by simp
qed

lemma good_generator: "good (generator sha kdf s)"
  by (cases s) (simp_all add: good_ABBA good_XOR good_Beaufort good_PBKDF2 good_BIP39 good_Matrix good_Phrase)

section \<open>The first results of the permutation strategy\<close>


lemma hexDigits_isHexDigit: "k < 16 \<Longrightarrow> isHexDigit (hexDigits ! k)"
  unfolding lt16_cases
  by (auto simp: upt_conv_Cons hexDigits_def isHexDigit_def in_range_def code_def)

lemma Hex_stringify_length: "length (Hex_stringify bs) = 2 * length bs"
  by (induction bs) (simp_all add: Hex_stringify_def)

lemma Hex_stringify_hex: "list_all isHexDigit (Hex_stringify bs)"
  by (induction bs) (simp_all add: Hex_stringify_def hexDigits_isHexDigit)

lemma valid64_Hex_stringify: "length bs = 32 \<Longrightarrow> valid64 (Hex_stringify bs)"
  by (simp add: valid64_iff Hex_stringify_length Hex_stringify_hex)

lemma combinations_two_head: "\<exists>more. combinations (a # b # rest) 2 = [a, b] # more"
proof -
  have "combinations rest 0 = [[]]" by (subst combinations.simps) simp
  then have "\<exists>m. combinations (b # rest) 1 = [b] # m"
    by (subst combinations.simps) simp
  then show ?thesis
    by (subst combinations.simps) auto
qed

lemma permutations_two_head: "\<exists>more. permutations [a, b] = [a, b] # more"
proof -
  have "permutations_sized [a, b] 1 = [[a, b]]" by (subst permutations_sized.simps) simp
  then have "\<exists>m. permutations_loop [a, b] (Suc (Suc 0)) 0 = [a, b] # m"
    by (subst permutations_loop.simps) simp
  then show ?thesis
    unfolding permutations_def by (subst permutations_sized.simps) simp
qed

lemma abba_head:
  "\<exists>perm l1 l2 l3 rest. generateABBAPermutations sha =
      CheckStop # CheckStop
      # Try (sha256_text sha (join [] perm)) l1 perm
      # Try (sha256_text sha (join ''_'' perm)) l2 perm
      # Try (doubleSha256_text sha (join [] perm)) l3 perm
      # rest \<and> checked rest"
proof -
  define B where "B = (\<lambda>size perm.
           [CheckStop,
            Try (sha256_text sha (join [] perm))
              (''ABBA-Permutation-SHA256('' @ Number_toString size @ '')'') perm,
            Try (sha256_text sha (join ''_'' perm))
              (''ABBA-Permutation-SHA256-Underscore('' @ Number_toString size @ '')'') perm,
            Try (doubleSha256_text sha (join [] perm))
              (''ABBA-Permutation-DoubleSHA256('' @ Number_toString size @ '')'') perm])"
  define G where "G = (\<lambda>size combo. CheckStop # concat (map (B size) (permutations combo)))"
  define F where "F = (\<lambda>size. concat (map (G size) (combinations ABBA_TOKENS size)))"
  have g: "generateABBAPermutations sha = concat (map F [2..<Suc (min (length ABBA_TOKENS) 7)])"
    unfolding generateABBAPermutations_def F_def G_def B_def by (rule refl)
  have u: "[2..<Suc (min (length ABBA_TOKENS) 7)] = 2 # [3..<7]"
    by (simp add: ABBA_TOKENS_def upt_conv_Cons)
  obtain t0 t1 ts where t: "ABBA_TOKENS = t0 # t1 # ts"
    by (simp add: ABBA_TOKENS_def)
  obtain cs where c: "combinations ABBA_TOKENS 2 = [t0, t1] # cs"
    unfolding t using combinations_two_head [of t0 t1 ts] by auto
  obtain ps where p: "permutations [t0, t1] = [t0, t1] # ps"
    using permutations_two_head [of t0 t1] by auto
  have gB: "\<And>n q. good (B n q)" unfolding B_def by (rule good_block3)
  have gG: "\<And>n q. good (G n q)" unfolding G_def by (intro good_CheckStop good_concat gB)
  have gF: "\<And>n. good (F n)" unfolding F_def by (intro good_concat gG)
  define rest where "rest = concat (map (B 2) ps) @ concat (map (G 2) cs) @ concat (map F [3..<7])"
  have "good rest" unfolding rest_def by (intro good_append good_concat gB gG gF)
  then have cr: "checked rest" by (simp add: good_def)
  have F2: "F 2 = concat (map (G 2) (combinations ABBA_TOKENS 2))" by (simp add: F_def)
  have G2: "G 2 [t0, t1] = CheckStop # concat (map (B 2) (permutations [t0, t1]))"
    by (simp add: G_def)
  have "generateABBAPermutations sha = CheckStop # B 2 [t0, t1] @ rest"
    unfolding g u rest_def by (simp add: F2 c G2 p)
  then show ?thesis using cr unfolding B_def by auto
qed

lemma sha256_text_valid: "(\<And>m. length (sha m) = 32) \<Longrightarrow> valid64 (sha256_text sha t)"
  by (simp add: sha256_text_def valid64_Hex_stringify)

lemma doubleSha256_text_valid: "(\<And>m. length (sha m) = 32) \<Longrightarrow> valid64 (doubleSha256_text sha t)"
  by (simp add: doubleSha256_text_def Let_def valid64_Hex_stringify)

text \<open>With a digest of 32 bytes (as SHA-256 has), the first strategy yields two further
  results when \<open>stop()\<close> is called after its first result.\<close>

lemma abba_after_stop:
  assumes "\<And>m. length (sha m) = 32" and "\<not> shouldStop eng"
  shows "length (results_after_stop clock eng (generateABBAPermutations sha)) = 2"
proof -
  obtain perm l1 l2 l3 rest where g: "generateABBAPermutations sha =
      CheckStop # CheckStop
      # Try (sha256_text sha (join [] perm)) l1 perm
      # Try (sha256_text sha (join ''_'' perm)) l2 perm
      # Try (doubleSha256_text sha (join [] perm)) l3 perm
      # rest" and r: "checked rest"
    using abba_head by blast
  define c1 where "c1 = sha256_text sha (join [] perm)"
  define c2 where "c2 = sha256_text sha (join ''_'' perm)"
  define c3 where "c3 = doubleSha256_text sha (join [] perm)"
  have v: "valid64 c1" "valid64 c2" "valid64 c3"
    unfolding c1_def c2_def c3_def using assms(1)
    by (simp_all add: sha256_text_valid doubleSha256_text_valid)
  obtain r1 e1 where a1: "addResult clock eng c1 l1 perm = (Some r1, e1)"
    using addResult_valid [OF v(1)] by blast
  obtain r2 e2 where a2: "addResult clock (stop e1) c2 l2 perm = (Some r2, e2)"
    "shouldStop e2 = shouldStop (stop e1)"
    using addResult_valid [OF v(2)] by blast
  obtain r3 e3 where a3: "addResult clock e2 c3 l3 perm = (Some r3, e3)"
    "shouldStop e3 = shouldStop e2"
    using addResult_valid [OF v(3)] by blast
  have s3: "shouldStop e3" using a2(2) a3(2) by (simp add: stop_def)
  have "resume clock eng (generateABBAPermutations sha)
      = (Some r1, e1, Try c2 l2 perm # Try c3 l3 perm # rest)"
    unfolding g c1_def [symmetric] c2_def [symmetric] c3_def [symmetric]
    using assms(2) a1 by simp
  moreover have "drain clock (stop e1) (Try c2 l2 perm # Try c3 l3 perm # rest) = ([r2, r3], e3)"
    using a2(1) a3(1) drain_stopped_checked [OF s3 r]
    by (simp add: drain_Try_valid)
  ultimately show ?thesis by (simp add: results_after_stop_def)
qed

lemma resume_suffix:
  "resume clock eng steps = (Some r, eng', steps') \<Longrightarrow>
   \<exists>pre t. steps = pre @ t # steps' \<and> is_Try t"
proof (induction clock eng steps rule: resume.induct)
  case (1 clock eng)
  then show ?case by simp
next
  case (2 clock eng steps)
  then have "resume clock eng steps = (Some r, eng', steps')" by (simp split: if_splits)
  then obtain pre t where "steps = pre @ t # steps'" "is_Try t" using 2 by (auto split: if_splits)
  then have "CheckStop # steps = (CheckStop # pre) @ t # steps'" by simp
  then show ?case using \<open>is_Try t\<close> by blast
next
  case (3 clock eng c l s steps)
  show ?case
  proof (cases "valid64 c")
    case True
    then obtain r0 e0 where "addResult clock eng c l s = (Some r0, e0)"
      using addResult_valid by blast
    then have "steps' = steps" using 3(2) by simp
    then have "Try c l s # steps = [] @ Try c l s # steps'" by simp
    then show ?thesis by (metis is_Try.simps(2))
  next
    case False
    then have a: "addResult clock eng c l s = (None, eng)" by (rule addResult_invalid)
    then have "resume clock eng steps = (Some r, eng', steps')" using 3(2) by simp
    then obtain pre t where "steps = pre @ t # steps'" "is_Try t" using 3(1) a by auto
    then have "Try c l s # steps = (Try c l s # pre) @ t # steps'" by simp
    then show ?thesis using \<open>is_Try t\<close> by blast
  qed
qed

section \<open>The derivation engine: shape filter, cancellation, determinism\<close>

text \<open>
  Claim C7. \<open>addResult\<close> discards a candidate that does not match \<open>/^[0-9a-f]{64}$/i\<close>: it
  returns nothing and leaves the engine as it was. Every result that a generator yields, in
  any state of any strategy (\<open>steps\<close> is any list of steps still to run), has a key of that
  shape and is the one element added to the accumulated list; so has every result of each
  strategy run to its end and of \<open>runAllDerivations\<close>; and the accumulated list grows by the
  yielded results only.
\<close>

theorem shape_filter:
  "(\<not> valid64 candidate \<longrightarrow> addResult clock eng candidate label sources = (None, eng))
   \<and> (\<forall>r eng' steps'. resume clock eng steps = (Some r, eng', steps') \<longrightarrow>
         valid64 (key r) \<and> results eng' = results eng @ [r])
   \<and> list_all (\<lambda>r. valid64 (key r)) (fst (drain clock eng (generator sha kdf s)))
   \<and> list_all (\<lambda>r. valid64 (key r)) (fst (runAll_drain clock eng (runAll_generators sha kdf)))
   \<and> results (snd (drain clock eng steps)) = results eng @ fst (drain clock eng steps)"
proof -
  have "results (snd (drain clock eng steps)) = results eng @ fst (drain clock eng steps)"
    using drain_results [of clock eng steps] by (cases "drain clock eng steps") simp
  then show ?thesis
    using addResult_invalid resume_Some drain_valid runAll_drain_valid_all by blast
qed

theorem shape_filter_witness:
  "\<not> valid64 ''not-a-key''
   \<and> addResult (\<lambda>n. n) (new_engine False) ''not-a-key'' ''Direct-SHA256'' [] = (None, new_engine False)
   \<and> list_all (\<lambda>r. valid64 (key r))
        (fst (drain (\<lambda>n. n) (new_engine False) (generator zero_digest zero_kdf XORChains)))"
  using shape_filter [where candidate = "''not-a-key''" and clock = "\<lambda>n. n"
      and eng = "new_engine False" and label = "''Direct-SHA256''" and sources = "[]"
      and sha = zero_digest and kdf = zero_kdf and s = XORChains]
  by (simp add: valid64_iff)

text \<open>
  Claim C8, as the code has it. The strategies test the stop flag at the head of their loops,
  not before each result. After \<open>stop()\<close>, a suspended generator of any strategy (suspended
  after a result, so that its remaining steps follow a step \<open>Try\<close>) yields at most two
  further results and returns; a strategy that is invoked after \<open>stop()\<close> yields none; and
  the remaining steps of a generator that has yielded a result always follow a step \<open>Try\<close>
  of its body.
\<close>

theorem stop_bound:
  "fst (drain clock (stop eng) (generator sha kdf s)) = []
   \<and> (\<forall>pre t rest. generator sha kdf s = pre @ t # rest \<and> is_Try t \<longrightarrow>
         length (fst (drain clock (stop eng) rest)) \<le> 2)
   \<and> (\<forall>r eng' steps'. resume clock eng steps = (Some r, eng', steps') \<longrightarrow>
         (\<exists>pre t. steps = pre @ t # steps' \<and> is_Try t))"
proof -
  have g: "good (generator sha kdf s)" by (rule good_generator)
  have st: "shouldStop (stop eng)" by (simp add: stop_def)
  have 1: "fst (drain clock (stop eng) (generator sha kdf s)) = []"
    using drain_stopped_checked [OF st] g by (simp add: good_def)
  have 2: "length (fst (drain clock (stop eng) rest)) \<le> 2"
    if "generator sha kdf s = pre @ t # rest" and "is_Try t" for pre t rest
  proof -
    have "tries_ok 0 (pre @ t # rest)" using g that(1) by (simp add: good_def)
    then have "length (takeWhile is_Try rest) \<le> 2" using that(2) by (rule tries_ok_after)
    then show ?thesis using drain_stopped_bound [OF st, of clock rest] by simp
  qed
  show ?thesis using 1 2 resume_suffix by blast
qed

theorem stop_bound_witness:
  "fst (drain (\<lambda>n. n) (stop (new_engine False)) (generator zero_digest zero_kdf ABBAPermutations)) = []
   \<and> is_Try (generator zero_digest zero_kdf ABBAPermutations ! 2)
   \<and> length (fst (drain (\<lambda>n. n) (stop (new_engine False))
        (drop 3 (generator zero_digest zero_kdf ABBAPermutations)))) \<le> 2"
proof -
  obtain perm l1 l2 l3 rest where g: "generateABBAPermutations zero_digest =
      CheckStop # CheckStop
      # Try (sha256_text zero_digest (join [] perm)) l1 perm
      # Try (sha256_text zero_digest (join ''_'' perm)) l2 perm
      # Try (doubleSha256_text zero_digest (join [] perm)) l3 perm
      # rest"
    using abba_head by blast
  have "generator zero_digest zero_kdf ABBAPermutations
      = [CheckStop, CheckStop] @ Try (sha256_text zero_digest (join [] perm)) l1 perm
        # drop 3 (generator zero_digest zero_kdf ABBAPermutations)"
    by (simp add: g)
  moreover have "is_Try (Try (sha256_text zero_digest (join [] perm)) l1 perm)" by simp
  ultimately have "length (fst (drain (\<lambda>n. n) (stop (new_engine False))
        (drop 3 (generator zero_digest zero_kdf ABBAPermutations)))) \<le> 2"
    using stop_bound [where clock = "\<lambda>n. n" and eng = "new_engine False" and sha = zero_digest
        and kdf = zero_kdf and s = ABBAPermutations]
    by blast
  moreover have "is_Try (generator zero_digest zero_kdf ABBAPermutations ! 2)" by (simp add: g)
  ultimately show ?thesis
    using stop_bound [where clock = "\<lambda>n. n" and eng = "new_engine False" and sha = zero_digest
        and kdf = zero_kdf and s = ABBAPermutations]
    by simp
qed

text \<open>
  The claim as the specification words it (at most one further result) fails for the
  permutation strategy, whose loop body makes three results between two tests of the flag:
  when \<open>stop()\<close> is called after the first result of a new engine, two more results are
  yielded. This holds for every digest of 32 bytes (\<open>abba_after_stop\<close>), so for SHA-256; the
  closed instance puts the stand-in \<open>zero_digest\<close> in the place of the digest.
\<close>

theorem stop_one_more_counterexample:
  "length (results_after_stop (\<lambda>n. n) (new_engine False) (generateABBAPermutations zero_digest)) = 2"
  by (rule abba_after_stop) (simp_all add: zero_digest_def new_engine_def)

text \<open>
  Claim C9. The keys that \<open>runAllDerivations\<close> yields on a new engine, run to its end with
  no call of \<open>stop()\<close>, are the same list whatever the clock and whether or not a progress
  callback was given: they are the candidates of the seven strategies, in order, that pass
  the shape check, in lower case. The same holds for any sequence of strategies run one
  after the other on a new engine.
\<close>

theorem deterministic_keys:
  "map key (fst (runAll_drain clockA (new_engine callbackA) (runAll_generators sha kdf)))
     = map key (fst (runAll_drain clockB (new_engine callbackB) (runAll_generators sha kdf)))
   \<and> map key (fst (run_strategies sha kdf clockA (new_engine callbackA) ss))
     = map key (fst (run_strategies sha kdf clockB (new_engine callbackB) ss))
   \<and> map key (fst (runAll_drain clockA (new_engine callbackA) (runAll_generators sha kdf)))
     = map toLowerCase (filter valid64 (candidates (concat (runAll_generators sha kdf))))"
proof -
  have n: "\<And>c. \<not> shouldStop (new_engine c)" by (simp add: new_engine_def)
  show ?thesis
    by (simp add: runAll_drain_keys [OF n] run_strategies_keys [OF n])
qed

theorem deterministic_keys_witness:
  "map key (fst (runAll_drain (\<lambda>n. n) (new_engine False) (runAll_generators zero_digest zero_kdf)))
     = map key (fst (runAll_drain (\<lambda>n. 2 * n) (new_engine True) (runAll_generators zero_digest zero_kdf)))"
  using deterministic_keys [where clockA = "\<lambda>n. n" and callbackA = False
      and clockB = "\<lambda>n. 2 * n" and callbackB = True and sha = zero_digest and kdf = zero_kdf
      and ss = "[]"]
  by blast

end
